theory Spec2Isabelle
  imports Main "HOL-Library.Word" "HOL-Library.AList"
begin

chapter \<open>Definitions: the embedded program\<close>

section \<open>Transactions\<close>

text \<open>
  Keys and values are byte strings. Transaction ids are only ever compared for equality by
  the lock manager and the remaster manager, so they are natural numbers here; where ids are
  computed (\<open>NextBatchId\<close>, \<open>NextTxnId\<close>) they are machine words, see below.
  Protobuf maps (\<open>read_set\<close>, \<open>write_set\<close>, \<open>master_metadata\<close>) are association lists:
  the list order stands for the (unspecified) iteration order of the map.
\<close>

type_synonym TxnId = nat
type_synonym Key = string
type_synonym Value = string

datatype LockMode = UNLOCKED | READ | WRITE

datatype TransactionType = UNKNOWN | SINGLE_HOME | MULTI_HOME | LOCK_ONLY

datatype TransactionStatus = NOT_STARTED | COMMITTED | ABORTED

record MasterMetadata =
  master :: "32 word"
  counter :: "32 word"

record Transaction =
  internal_id :: TxnId
  internal_type :: TransactionType
  internal_master_metadata :: "(Key \<times> MasterMetadata) list"
  read_set :: "(Key \<times> Value) list"
  write_set :: "(Key \<times> Value) list"
  procedures :: "string list list"
  remaster_new_master :: "32 word option"
  is_new_master_lock_only :: bool
  status :: TransactionStatus
  abort_reason :: string

text \<open>A fresh \<open>Transaction()\<close>: every field at its protobuf default.\<close>

definition new_Transaction :: Transaction where
  "new_Transaction =
     \<lparr>internal_id = 0, internal_type = UNKNOWN, internal_master_metadata = [],
      read_set = [], write_set = [], procedures = [], remaster_new_master = None,
      is_new_master_lock_only = False, status = NOT_STARTED, abort_reason = []\<rparr>"

text \<open>\<open>Map::contains\<close> and \<open>Map::insert\<close> (which keeps an entry that is already there).\<close>

definition contains :: "('k \<times> 'v) list \<Rightarrow> 'k \<Rightarrow> bool" where
  "contains m k = (k \<in> fst ` set m)"

definition map_insert :: "'k \<times> 'v \<Rightarrow> ('k \<times> 'v) list \<Rightarrow> ('k \<times> 'v) list" where
  "map_insert kv m = (if contains m (fst kv) then m else m @ [kv])"

section \<open>Lock table entries (\<open>LockState\<close>)\<close>

text \<open>
  \<open>holders_\<close> and \<open>waiters_\<close> are \<open>unordered_set<TxnId>\<close>: duplicate-free lists, with
  \<open>List.insert\<close> for \<open>insert\<close> and \<open>removeAll\<close> for \<open>erase\<close>; the order of the list
  stands for the unspecified iteration order. \<open>waiter_queue_\<close> is the deque.
\<close>

record LockState =
  mode :: LockMode
  holders :: "TxnId list"
  waiters :: "TxnId list"
  waiter_queue :: "(TxnId \<times> LockMode) list"

definition empty_LockState :: LockState where
  "empty_LockState = \<lparr>mode = UNLOCKED, holders = [], waiters = [], waiter_queue = []\<rparr>"

definition AcquireReadLock :: "TxnId \<Rightarrow> LockState \<Rightarrow> bool \<times> LockState" where
  "AcquireReadLock txn_id s =
     (case mode s of
        UNLOCKED \<Rightarrow> (True, s\<lparr>holders := List.insert txn_id (holders s), mode := READ\<rparr>)
      | READ \<Rightarrow>
          if waiters s = [] then (True, s\<lparr>holders := List.insert txn_id (holders s)\<rparr>)
          else (False, s\<lparr>waiters := List.insert txn_id (waiters s),
                           waiter_queue := waiter_queue s @ [(txn_id, READ)]\<rparr>)
      | WRITE \<Rightarrow>
          (False, s\<lparr>waiters := List.insert txn_id (waiters s),
                      waiter_queue := waiter_queue s @ [(txn_id, READ)]\<rparr>))"

text \<open>The waiting branch of \<open>AcquireWriteLock\<close> pushes the pair with \<open>LockMode::READ\<close>, as the source does.\<close>

definition AcquireWriteLock :: "TxnId \<Rightarrow> LockState \<Rightarrow> bool \<times> LockState" where
  "AcquireWriteLock txn_id s =
     (case mode s of
        UNLOCKED \<Rightarrow> (True, s\<lparr>holders := List.insert txn_id (holders s), mode := WRITE\<rparr>)
      | _ \<Rightarrow>
          (False, s\<lparr>waiters := List.insert txn_id (waiters s),
                      waiter_queue := waiter_queue s @ [(txn_id, READ)]\<rparr>))"

definition IsQueued :: "TxnId \<Rightarrow> LockState \<Rightarrow> bool" where
  "IsQueued txn_id s = (txn_id \<in> set (holders s) \<or> txn_id \<in> set (waiters s))"

text \<open>
  The \<open>do ... while\<close> loop of \<open>Release\<close>: the front of the queue becomes a holder, then the
  loop goes on while the queue is not empty and its new front is tagged \<open>READ\<close>.
  It is only entered with a non-empty queue.
\<close>

fun grant_read_locks :: "LockState \<Rightarrow> (TxnId \<times> LockMode) list \<Rightarrow> LockState" where
  "grant_read_locks s [] = s\<lparr>waiter_queue := []\<rparr>"
| "grant_read_locks s (front # rest) =
     (let s' = s\<lparr>holders := List.insert (fst front) (holders s),
                  waiters := removeAll (fst front) (waiters s),
                  waiter_queue := rest\<rparr>
      in if rest \<noteq> [] \<and> snd (hd rest) = READ then grant_read_locks s' rest else s')"

text \<open>
  \<open>Release\<close> returns the new holders and the new state. \<open>waiter_queue_.front()\<close> on an empty
  deque has no defined behaviour in C++: that branch is \<open>None\<close>.
\<close>

definition Release :: "TxnId \<Rightarrow> LockState \<Rightarrow> (TxnId list \<times> LockState) option" where
  "Release txn_id s =
     (if txn_id \<notin> set (holders s) then
        Some ([], s\<lparr>waiter_queue := filter (\<lambda>pair. fst pair \<noteq> txn_id) (waiter_queue s),
                     waiters := removeAll txn_id (waiters s)\<rparr>)
      else
        let s1 = s\<lparr>holders := removeAll txn_id (holders s)\<rparr> in
        if holders s1 \<noteq> [] then Some ([], s1)
        else if waiters s1 = [] then Some ([], s1\<lparr>mode := UNLOCKED\<rparr>)
        else
          (case waiter_queue s1 of
             [] \<Rightarrow> None
           | front # rest \<Rightarrow>
               let s2 =
                 (if snd front = READ then (grant_read_locks s1 (front # rest))\<lparr>mode := READ\<rparr>
                  else if snd front = WRITE then
                    s1\<lparr>holders := List.insert (fst front) (holders s1),
                       waiters := removeAll (fst front) (waiters s1),
                       waiter_queue := rest, mode := WRITE\<rparr>
                  else s1)
               in Some (holders s2, s2)))"

section \<open>The lock manager\<close>

text \<open>
  \<open>lock_table_\<close> and \<open>num_locks_waited_\<close> are hash maps; \<open>m[k]\<close> on a missing key inserts the
  default value (an unlocked entry, the count 0). The lock table is an association list with
  one pair for each key (\<open>AList.update\<close>, \<open>AList.delete\<close>), so that its \<open>size()\<close> is
  the length of the list. The counts are signed: \<open>AcquireLocks\<close> may
  run before \<open>RegisterTxn\<close> and take the count below zero. The configuration enters through
  the predicate \<open>KeyIsInLocalPartition\<close>.
\<close>

record DeterministicLockManager =
  lock_table :: "(Key \<times> LockState) list"
  num_locks_waited :: "TxnId \<rightharpoonup> int"

definition new_DeterministicLockManager :: DeterministicLockManager where
  "new_DeterministicLockManager = \<lparr>lock_table = [], num_locks_waited = Map.empty\<rparr>"

definition LOCK_TABLE_SIZE_LIMIT :: nat where
  "LOCK_TABLE_SIZE_LIMIT = 1000000"

text \<open>
  Ways in which the process dies: \<open>LOG(FATAL)\<close> and failed \<open>CHECK\<close>s, \<open>at()\<close> on a key that
  a map does not hold, \<open>front()\<close> of an empty deque.
\<close>

datatype fatal = InvalidLockMode | FrontOfEmptyQueue | KeyNotFound | MastersDontMatch

definition table_at :: "(Key \<times> LockState) list \<Rightarrow> Key \<Rightarrow> LockState" where
  "table_at tbl key = (case map_of tbl key of None \<Rightarrow> empty_LockState | Some s \<Rightarrow> s)"

definition count_at :: "(TxnId \<rightharpoonup> int) \<Rightarrow> TxnId \<Rightarrow> int" where
  "count_at cnt txn_id = (case cnt txn_id of None \<Rightarrow> 0 | Some c \<Rightarrow> c)"

definition ExtractKeys :: "(Key \<Rightarrow> bool) \<Rightarrow> Transaction \<Rightarrow> (Key \<times> LockMode) list" where
  "ExtractKeys KeyIsInLocalPartition txn =
     map (\<lambda>kv. (fst kv, READ))
       (filter (\<lambda>kv. KeyIsInLocalPartition (fst kv) \<and> \<not> contains (write_set txn) (fst kv))
          (read_set txn))
     @ map (\<lambda>kv. (fst kv, WRITE))
       (filter (\<lambda>kv. KeyIsInLocalPartition (fst kv)) (write_set txn))"

definition RegisterTxn ::
  "(Key \<Rightarrow> bool) \<Rightarrow> Transaction \<Rightarrow> DeterministicLockManager \<Rightarrow> bool \<times> DeterministicLockManager" where
  "RegisterTxn KeyIsInLocalPartition txn lm =
     (let txn_id = internal_id txn; keys = ExtractKeys KeyIsInLocalPartition txn in
      if keys = [] then (False, lm)
      else
        let n = count_at (num_locks_waited lm) txn_id + int (length keys) in
        if n = 0 then (True, lm\<lparr>num_locks_waited := (num_locks_waited lm)(txn_id := None)\<rparr>)
        else (False, lm\<lparr>num_locks_waited := (num_locks_waited lm)(txn_id \<mapsto> n)\<rparr>))"

text \<open>One round of the loop of \<open>AcquireLocks\<close>.\<close>

definition acquire_key ::
  "TxnId \<Rightarrow> Key \<times> LockMode \<Rightarrow> DeterministicLockManager \<Rightarrow> fatal + DeterministicLockManager" where
  "acquire_key txn_id pair lm =
     (let key = fst pair; s = table_at (lock_table lm) key in
      if snd pair = UNLOCKED then Inl InvalidLockMode
      else if IsQueued txn_id s then Inr (lm\<lparr>lock_table := AList.update key s (lock_table lm)\<rparr>)
      else
        let (got, s') = (if snd pair = READ then AcquireReadLock txn_id s
                         else AcquireWriteLock txn_id s) in
        Inr (lm\<lparr>lock_table := AList.update key s' (lock_table lm),
                 num_locks_waited :=
                   (if got then (num_locks_waited lm)
                                  (txn_id \<mapsto> count_at (num_locks_waited lm) txn_id - 1)
                    else num_locks_waited lm)\<rparr>))"

fun acquire_keys ::
  "TxnId \<Rightarrow> (Key \<times> LockMode) list \<Rightarrow> DeterministicLockManager \<Rightarrow> fatal + DeterministicLockManager" where
  "acquire_keys txn_id [] lm = Inr lm"
| "acquire_keys txn_id (pair # keys) lm =
     (case acquire_key txn_id pair lm of
        Inl e \<Rightarrow> Inl e
      | Inr lm' \<Rightarrow> acquire_keys txn_id keys lm')"

definition AcquireLocks ::
  "(Key \<Rightarrow> bool) \<Rightarrow> Transaction \<Rightarrow> DeterministicLockManager
     \<Rightarrow> fatal + (bool \<times> DeterministicLockManager)" where
  "AcquireLocks KeyIsInLocalPartition txn lm =
     (let txn_id = internal_id txn; keys = ExtractKeys KeyIsInLocalPartition txn in
      if keys = [] then Inr (False, lm)
      else
        case acquire_keys txn_id keys lm of
          Inl e \<Rightarrow> Inl e
        | Inr lm' \<Rightarrow>
            if count_at (num_locks_waited lm') txn_id = 0
            then Inr (True, lm'\<lparr>num_locks_waited := (num_locks_waited lm')(txn_id := None)\<rparr>)
            else Inr (False,
                   lm'\<lparr>num_locks_waited :=
                         (num_locks_waited lm')(txn_id \<mapsto> count_at (num_locks_waited lm') txn_id)\<rparr>))"

definition RegisterTxnAndAcquireLocks ::
  "(Key \<Rightarrow> bool) \<Rightarrow> Transaction \<Rightarrow> DeterministicLockManager
     \<Rightarrow> fatal + (bool \<times> DeterministicLockManager)" where
  "RegisterTxnAndAcquireLocks KeyIsInLocalPartition txn lm =
     AcquireLocks KeyIsInLocalPartition txn (snd (RegisterTxn KeyIsInLocalPartition txn lm))"

text \<open>The inner loop of \<open>ReleaseLocks\<close>, over the new holders of one key.\<close>

definition notify_holder ::
  "TxnId \<Rightarrow> (TxnId \<rightharpoonup> int) \<times> TxnId list \<Rightarrow> (TxnId \<rightharpoonup> int) \<times> TxnId list" where
  "notify_holder holder acc =
     (let c = count_at (fst acc) holder - 1 in
      if c = 0 then ((fst acc)(holder := None), List.insert holder (snd acc))
      else ((fst acc)(holder \<mapsto> c), snd acc))"

text \<open>One round of the outer loop of \<open>ReleaseLocks\<close>, with the eviction of an unlocked entry.\<close>

definition release_key ::
  "(Key \<Rightarrow> bool) \<Rightarrow> TxnId \<Rightarrow> Key \<times> LockMode \<Rightarrow> DeterministicLockManager \<times> TxnId list
     \<Rightarrow> fatal + (DeterministicLockManager \<times> TxnId list)" where
  "release_key KeyIsInLocalPartition txn_id pair acc =
     (let key = fst pair; lm = fst acc in
      if \<not> KeyIsInLocalPartition key then Inr acc
      else
        case Release txn_id (table_at (lock_table lm) key) of
          None \<Rightarrow> Inl FrontOfEmptyQueue
        | Some (new_holders, s') \<Rightarrow>
            let tbl = AList.update key s' (lock_table lm);
                (cnt, ready_txns) = fold notify_holder new_holders (num_locks_waited lm, snd acc);
                tbl' = (if mode s' = UNLOCKED \<and> length tbl > LOCK_TABLE_SIZE_LIMIT
                        then AList.delete key tbl else tbl)
            in Inr (lm\<lparr>lock_table := tbl', num_locks_waited := cnt\<rparr>, ready_txns))"

fun release_keys ::
  "(Key \<Rightarrow> bool) \<Rightarrow> TxnId \<Rightarrow> (Key \<times> LockMode) list \<Rightarrow> DeterministicLockManager \<times> TxnId list
     \<Rightarrow> fatal + (DeterministicLockManager \<times> TxnId list)" where
  "release_keys loc txn_id [] acc = Inr acc"
| "release_keys loc txn_id (pair # keys) acc =
     (case release_key loc txn_id pair acc of
        Inl e \<Rightarrow> Inl e
      | Inr acc' \<Rightarrow> release_keys loc txn_id keys acc')"

text \<open>\<open>ReleaseLocks\<close> returns the ready transactions and the new state.\<close>

definition ReleaseLocks ::
  "(Key \<Rightarrow> bool) \<Rightarrow> Transaction \<Rightarrow> DeterministicLockManager
     \<Rightarrow> fatal + (TxnId list \<times> DeterministicLockManager)" where
  "ReleaseLocks KeyIsInLocalPartition txn lm =
     (let txn_id = internal_id txn; keys = ExtractKeys KeyIsInLocalPartition txn in
      case release_keys KeyIsInLocalPartition txn_id keys (lm, []) of
        Inl e \<Rightarrow> Inl e
      | Inr (lm', ready_txns) \<Rightarrow>
          Inr (ready_txns, lm'\<lparr>num_locks_waited := (num_locks_waited lm')(txn_id := None)\<rparr>))"

text \<open>\<open>MakeTransaction\<close> of the tests: a transaction from its read keys and write keys.\<close>

definition MakeTransaction :: "TxnId \<Rightarrow> Key list \<Rightarrow> Key list \<Rightarrow> Transaction" where
  "MakeTransaction i rs ws =
     new_Transaction\<lparr>internal_id := i, read_set := map (\<lambda>k. (k, [])) rs,
                      write_set := map (\<lambda>k. (k, [])) ws\<rparr>"


text \<open>A run of the lock manager: a list of calls, with what each call returned.\<close>

datatype lm_call =
    CallRegisterTxn Transaction
  | CallAcquireLocks Transaction
  | CallReleaseLocks Transaction

datatype lm_return = Returned bool | Ready "TxnId list"

fun call_txn :: "lm_call \<Rightarrow> Transaction" where
  "call_txn (CallRegisterTxn txn) = txn"
| "call_txn (CallAcquireLocks txn) = txn"
| "call_txn (CallReleaseLocks txn) = txn"

fun lm_step ::
  "(Key \<Rightarrow> bool) \<Rightarrow> lm_call \<Rightarrow> DeterministicLockManager
     \<Rightarrow> fatal + (lm_return \<times> DeterministicLockManager)" where
  "lm_step loc (CallRegisterTxn txn) lm =
     (case RegisterTxn loc txn lm of (b, lm') \<Rightarrow> Inr (Returned b, lm'))"
| "lm_step loc (CallAcquireLocks txn) lm =
     (case AcquireLocks loc txn lm of Inl e \<Rightarrow> Inl e | Inr (b, lm') \<Rightarrow> Inr (Returned b, lm'))"
| "lm_step loc (CallReleaseLocks txn) lm =
     (case ReleaseLocks loc txn lm of Inl e \<Rightarrow> Inl e | Inr (r, lm') \<Rightarrow> Inr (Ready r, lm'))"

fun lm_run ::
  "(Key \<Rightarrow> bool) \<Rightarrow> lm_call list \<Rightarrow> DeterministicLockManager
     \<Rightarrow> fatal + (lm_return list \<times> DeterministicLockManager)" where
  "lm_run loc [] lm = Inr ([], lm)"
| "lm_run loc (c # cs) lm =
     (case lm_step loc c lm of
        Inl e \<Rightarrow> Inl e
      | Inr (r, lm') \<Rightarrow>
          (case lm_run loc cs lm' of Inl e \<Rightarrow> Inl e | Inr (rs, lm'') \<Rightarrow> Inr (r # rs, lm'')))"

text \<open>A run of calls on one lock table entry, and the mode a transaction asked for last.\<close>

datatype entry_call = CallAcquireReadLock TxnId | CallAcquireWriteLock TxnId | CallRelease TxnId

fun entry_step :: "entry_call \<Rightarrow> LockState \<Rightarrow> LockState option" where
  "entry_step (CallAcquireReadLock t) s = Some (snd (AcquireReadLock t s))"
| "entry_step (CallAcquireWriteLock t) s = Some (snd (AcquireWriteLock t s))"
| "entry_step (CallRelease t) s = map_option snd (Release t s)"

fun entry_run :: "entry_call list \<Rightarrow> LockState \<Rightarrow> LockState option" where
  "entry_run [] s = Some s"
| "entry_run (c # cs) s = (case entry_step c s of None \<Rightarrow> None | Some s' \<Rightarrow> entry_run cs s')"

fun requested :: "entry_call list \<Rightarrow> TxnId \<Rightarrow> LockMode option" where
  "requested [] t = None"
| "requested (CallAcquireReadLock u # cs) t =
     (case requested cs t of None \<Rightarrow> (if u = t then Some READ else None) | Some m \<Rightarrow> Some m)"
| "requested (CallAcquireWriteLock u # cs) t =
     (case requested cs t of None \<Rightarrow> (if u = t then Some WRITE else None) | Some m \<Rightarrow> Some m)"
| "requested (CallRelease u # cs) t = requested cs t"

text \<open>
  Scenario 5 of the specification on one partition: \<open>txn1\<close> reads \<open>A\<close>, \<open>txn2\<close> writes
  \<open>A\<close>, \<open>txn3\<close> reads \<open>A\<close>; then \<open>txn1\<close> and \<open>txn2\<close> release. The result holds what the
  three submissions returned, what the first release made ready, the entry of \<open>A\<close> after it,
  and what the second release made ready.
\<close>

definition read_write_read_scenario ::
  "fatal + (bool \<times> bool \<times> bool \<times> TxnId list \<times> LockState \<times> TxnId list)" where
  "read_write_read_scenario =
     (let loc = (\<lambda>k. True);
          txn1 = MakeTransaction 1 [''A''] [];
          txn2 = MakeTransaction 2 [] [''A''];
          txn3 = MakeTransaction 3 [''A''] []
      in
      case RegisterTxnAndAcquireLocks loc txn1 new_DeterministicLockManager of
        Inl e \<Rightarrow> Inl e
      | Inr (got1, lm1) \<Rightarrow>
      (case RegisterTxnAndAcquireLocks loc txn2 lm1 of
        Inl e \<Rightarrow> Inl e
      | Inr (got2, lm2) \<Rightarrow>
      (case RegisterTxnAndAcquireLocks loc txn3 lm2 of
        Inl e \<Rightarrow> Inl e
      | Inr (got3, lm3) \<Rightarrow>
      (case ReleaseLocks loc txn1 lm3 of
        Inl e \<Rightarrow> Inl e
      | Inr (ready1, lm4) \<Rightarrow>
      (case ReleaseLocks loc txn2 lm4 of
        Inl e \<Rightarrow> Inl e
      | Inr (ready2, lm5) \<Rightarrow>
          Inr (got1, got2, got3, ready1, table_at (lock_table lm4) ''A'', ready2))))))"

subsection \<open>Invariants of the lock manager\<close>

text \<open>
  What every entry reached from the empty one by \<open>AcquireReadLock\<close>, \<open>AcquireWriteLock\<close> and
  \<open>Release\<close> satisfies: \<open>waiters\<close> is the set of the transactions in \<open>waiter_queue\<close>, every
  queued request carries the tag READ (see \<open>AcquireWriteLock\<close>), the holders are distinct,
  an unlocked entry has neither holders nor waiters, an entry in mode WRITE has one holder and
  a locked entry has a holder.
\<close>

definition entry_inv :: "LockState \<Rightarrow> bool" where
  "entry_inv s =
     (set (waiters s) = fst ` set (waiter_queue s)
      \<and> list_all (\<lambda>p. snd p = READ) (waiter_queue s)
      \<and> distinct (holders s)
      \<and> (mode s = UNLOCKED \<longrightarrow> holders s = [] \<and> waiter_queue s = [])
      \<and> (mode s = WRITE \<longrightarrow> length (holders s) = 1)
      \<and> (mode s \<noteq> UNLOCKED \<longrightarrow> holders s \<noteq> []))"

text \<open>Every entry of the lock table (an absent key stands for the empty entry).\<close>

definition lm_inv :: "DeterministicLockManager \<Rightarrow> bool" where
  "lm_inv lm = (\<forall>k. entry_inv (table_at (lock_table lm) k))"

text \<open>The number of the keys of \<open>keys\<close> at which transaction \<open>i\<close> holds the lock.\<close>

definition held :: "TxnId \<Rightarrow> Key list \<Rightarrow> DeterministicLockManager \<Rightarrow> nat" where
  "held i keys lm = length (filter (\<lambda>k. i \<in> set (holders (table_at (lock_table lm) k))) keys)"

text \<open>
  The state of transaction \<open>i\<close> with the local keys \<open>keys\<close>; \<open>reg\<close> and \<open>acq\<close> tell whether
  \<open>RegisterTxn\<close> and \<open>AcquireLocks\<close> have been called for it. The transaction is queued
  (holder or waiter) only at its own keys and only after \<open>AcquireLocks\<close>, and its outstanding
  count is the number of its keys, once registered, minus the number of the locks it holds.
\<close>

definition txn_inv :: "TxnId \<Rightarrow> Key list \<Rightarrow> bool \<Rightarrow> bool \<Rightarrow> DeterministicLockManager \<Rightarrow> bool" where
  "txn_inv i keys reg acq lm =
     (lm_inv lm
      \<and> (\<forall>k. IsQueued i (table_at (lock_table lm) k) \<longrightarrow> acq \<and> k \<in> set keys)
      \<and> count_at (num_locks_waited lm) i
          = (if reg then int (length keys) else 0) - int (held i keys lm))"

text \<open>
  Examples, after the tests \<open>GhostTxns\<close> and \<open>PartiallyAcquiredLocks\<close>: the key \<open>X\<close> belongs to
  another partition.
\<close>

definition example_loc :: "Key \<Rightarrow> bool" where
  "example_loc key = (key \<noteq> ''X'')"

definition ghost_txn :: Transaction where
  "ghost_txn = MakeTransaction 100 [] [''X'']"

definition partial_t1 :: Transaction where
  "partial_t1 = MakeTransaction 100 [''A''] [''B'', ''C'']"

definition partial_t2 :: Transaction where
  "partial_t2 = MakeTransaction 200 [''A''] [''B'']"


section \<open>Batch and transaction ids\<close>

text \<open>
  \<open>Sequencer::NextBatchId\<close> and \<open>Server::NextTxnId\<close>. The width of the id types and the
  constant \<open>kMaxNumMachines\<close> are declared outside the sources at hand: the width is the type
  parameter of the word, the constant is an argument. Each function returns the id and the
  new counter.
\<close>

definition NextBatchId :: "'a::len word \<Rightarrow> 'a word \<Rightarrow> 'a word \<Rightarrow> 'a word \<times> 'a word" where
  "NextBatchId kMaxNumMachines local_machine_id batch_id_counter =
     (let c = batch_id_counter + 1 in (c * kMaxNumMachines + local_machine_id, c))"

definition NextTxnId :: "'a::len word \<Rightarrow> 'a word \<Rightarrow> 'a word \<Rightarrow> 'a word \<times> 'a word" where
  "NextTxnId kMaxNumMachines local_machine_id txn_id_counter =
     (let c = txn_id_counter + 1 in (c * kMaxNumMachines + local_machine_id, c))"

section \<open>The asynchronous log\<close>

record 'a AsyncLog =
  log_map :: "32 word \<rightharpoonup> 'a"
  next_pos :: "32 word"

datatype runtime_error = PositionTaken "32 word" | NextItemDoesNotExist | out_of_range

definition new_AsyncLog :: "32 word \<Rightarrow> 'a AsyncLog" where
  "new_AsyncLog start_from = \<lparr>log_map = Map.empty, next_pos = start_from\<rparr>"

definition Insert :: "32 word \<Rightarrow> 'a \<Rightarrow> 'a AsyncLog \<Rightarrow> runtime_error + 'a AsyncLog" where
  "Insert position item l =
     (if position < next_pos l then Inr l
      else if log_map l position \<noteq> None then Inl (PositionTaken position)
      else Inr (l\<lparr>log_map := (log_map l)(position \<mapsto> item)\<rparr>))"

definition HasNext :: "'a AsyncLog \<Rightarrow> bool" where
  "HasNext l = (log_map l (next_pos l) \<noteq> None)"

definition Peek :: "'a AsyncLog \<Rightarrow> runtime_error + 'a" where
  "Peek l = (case log_map l (next_pos l) of None \<Rightarrow> Inl out_of_range | Some item \<Rightarrow> Inr item)"

definition Next :: "'a AsyncLog \<Rightarrow> runtime_error + ('a \<times> 'a AsyncLog)" where
  "Next l =
     (if \<not> HasNext l then Inl NextItemDoesNotExist
      else
        case log_map l (next_pos l) of
          None \<Rightarrow> Inl NextItemDoesNotExist
        | Some result \<Rightarrow>
            Inr (result, l\<lparr>log_map := (log_map l)(next_pos l := None), next_pos := next_pos l + 1\<rparr>))"

text \<open>A log with one item, at its cursor.\<close>

definition example_log :: "string AsyncLog" where
  "example_log = \<lparr>log_map = [5 \<mapsto> ''a''], next_pos = 5\<rparr>"

section \<open>TPC-C execution\<close>

text \<open>
  The procedure classes of \<open>execution/tpcc\<close> (with the storage adapter they work through),
  \<open>ApplyWrites\<close> and \<open>kTotalItems\<close> are outside the sources at hand, so they are the fields
  of an environment. \<open>std::stoi\<close> and \<open>std::stoll\<close> throw \<open>invalid_argument\<close> on a string
  that holds no number and \<open>out_of_range\<close> on a number that does not fit: here they return
  the exception, and \<open>Execute\<close> ends with the first one met, the arguments being converted
  in the order of the source.
\<close>

datatype tpcc_call =
    NewOrderTxn int int int int int int "(int \<times> int \<times> int \<times> int) list"
  | PaymentTxn int int int int int int int int
  | OrderStatusTxn int int int int
  | DeliverTxn int int int int int int
  | StockLevelTxn int int int "int list"

datatype exception = invalid_argument | out_of_range

record 'st tpcc_env =
  stoi :: "string \<Rightarrow> exception + int"
  stoll :: "string \<Rightarrow> exception + int"
  kTotalItems :: nat
  procedure_Execute :: "tpcc_call \<Rightarrow> Transaction \<Rightarrow> bool \<times> Transaction"
  ApplyWrites :: "Transaction \<Rightarrow> 'st \<Rightarrow> 'st"

text \<open>What the argument checks of one branch come to: a call, an early return with an abort reason, or an exception.\<close>

datatype 'a parsed = Parsed 'a | Invalid string | Thrown exception

text \<open>The conversions of one statement list, in order: the values, or the first exception.\<close>

fun converted :: "(exception + int) list \<Rightarrow> exception + int list" where
  "converted [] = Inr []"
| "converted (Inl e # rest) = Inl e"
| "converted (Inr v # rest) = (case converted rest of Inl e \<Rightarrow> Inl e | Inr vs \<Rightarrow> Inr (v # vs))"

text \<open>
  \<^verbatim>\<open>int w_i_id = stoll(args[6])\<close> in the \<open>new_order\<close> branch: the 64-bit value is converted
  to \<open>int\<close>, which keeps its low 32 bits (two's complement).
\<close>

definition int_of_long_long :: "int \<Rightarrow> int" where
  "int_of_long_long v = sint (word_of_int v :: 32 word)"

fun order_lines :: "'st tpcc_env \<Rightarrow> string list list \<Rightarrow> (int \<times> int \<times> int \<times> int) list parsed" where
  "order_lines env [] = Parsed []"
| "order_lines env (order_line # rest) =
     (if length order_line \<noteq> 4
      then Invalid ''new_order: Invalid number of arguments for order line''
      else
        case converted (map (stoi env) order_line) of
          Inl e \<Rightarrow> Thrown e
        | Inr v \<Rightarrow>
            (case order_lines env rest of
               Parsed ol \<Rightarrow> Parsed ((v ! 0, v ! 1, v ! 2, v ! 3) # ol)
             | Invalid r \<Rightarrow> Invalid r
             | Thrown e \<Rightarrow> Thrown e))"

definition selected_procedure :: "'st tpcc_env \<Rightarrow> Transaction \<Rightarrow> tpcc_call parsed" where
  "selected_procedure env txn =
     (let args = hd (procedures txn); txn_name = hd args in
      if txn_name = ''new_order'' then
        if length args \<noteq> 7 \<or> length (procedures txn) \<noteq> 11
        then Invalid ''new_order: Invalid number of arguments''
        else
          (case converted [stoi env (args ! 1), stoi env (args ! 2), stoi env (args ! 3),
                           stoi env (args ! 4), stoll env (args ! 5), stoll env (args ! 6)] of
             Inl e \<Rightarrow> Thrown e
           | Inr v \<Rightarrow>
               (case order_lines env (take 10 (tl (procedures txn))) of
                  Parsed ol \<Rightarrow>
                    Parsed (NewOrderTxn (v ! 0) (v ! 1) (v ! 2) (v ! 3) (v ! 4)
                              (int_of_long_long (v ! 5)) ol)
                | Invalid r \<Rightarrow> Invalid r
                | Thrown e \<Rightarrow> Thrown e))
      else if txn_name = ''payment'' then
        if length args \<noteq> 9 then Invalid ''payment: Invalid number of arguments''
        else
          (case converted [stoi env (args ! 1), stoi env (args ! 2), stoi env (args ! 3),
                           stoi env (args ! 4), stoi env (args ! 5), stoll env (args ! 6),
                           stoll env (args ! 7), stoi env (args ! 8)] of
             Inl e \<Rightarrow> Thrown e
           | Inr v \<Rightarrow>
               Parsed (PaymentTxn (v ! 0) (v ! 1) (v ! 2) (v ! 3) (v ! 4) (v ! 5) (v ! 6) (v ! 7)))
      else if txn_name = ''order_status'' then
        if length args \<noteq> 5 then Invalid ''order_status: Invalid number of arguments''
        else
          (case converted [stoi env (args ! 1), stoi env (args ! 2), stoi env (args ! 3),
                           stoi env (args ! 4)] of
             Inl e \<Rightarrow> Thrown e
           | Inr v \<Rightarrow> Parsed (OrderStatusTxn (v ! 0) (v ! 1) (v ! 2) (v ! 3)))
      else if txn_name = ''deliver'' then
        if length args \<noteq> 7 then Invalid ''deliver: Invalid number of arguments''
        else
          (case converted [stoi env (args ! 1), stoi env (args ! 2), stoi env (args ! 3),
                           stoi env (args ! 4), stoi env (args ! 5), stoll env (args ! 6)] of
             Inl e \<Rightarrow> Thrown e
           | Inr v \<Rightarrow> Parsed (DeliverTxn (v ! 0) (v ! 1) (v ! 2) (v ! 3) (v ! 4) (v ! 5)))
      else if txn_name = ''stock_level'' then
        if length args \<noteq> 4 \<or> length (procedures txn) \<noteq> 2
        then Invalid ''stock_level: Invalid number of arguments''
        else
          (case converted [stoi env (args ! 1), stoi env (args ! 2), stoi env (args ! 3)] of
             Inl e \<Rightarrow> Thrown e
           | Inr v \<Rightarrow>
               let item_ids = procedures txn ! 1 in
               if length item_ids \<noteq> kTotalItems env
               then Invalid ''stock_level: Invalid number of items''
               else
                 (case converted (map (stoi env) item_ids) of
                    Inl e \<Rightarrow> Thrown e
                  | Inr i_ids \<Rightarrow> Parsed (StockLevelTxn (v ! 0) (v ! 1) (v ! 2) i_ids)))
      else Invalid ''Unknown procedure name'')"

text \<open>
  \<open>TPCCExecution::Execute\<close>. After the procedure has run, the source has
  \<^verbatim>\<open>if (result) { COMMITTED; ApplyWrites } { ABORTED; reason }\<close>: the second block is not an
  \<open>else\<close> branch, it runs in every case.
\<close>

definition Execute :: "'st tpcc_env \<Rightarrow> Transaction \<Rightarrow> 'st \<Rightarrow> exception + (Transaction \<times> 'st)" where
  "Execute env txn storage =
     (if procedures txn = [] \<or> hd (procedures txn) = []
      then Inr (txn\<lparr>status := ABORTED, abort_reason := ''Invalid code''\<rparr>, storage)
      else
        case selected_procedure env txn of
          Invalid reason \<Rightarrow> Inr (txn\<lparr>status := ABORTED, abort_reason := reason\<rparr>, storage)
        | Thrown e \<Rightarrow> Inl e
        | Parsed call \<Rightarrow>
            let (result, txn1) = procedure_Execute env call txn;
                (txn2, storage2) =
                  (if result
                   then (txn1\<lparr>status := COMMITTED\<rparr>,
                         ApplyWrites env (txn1\<lparr>status := COMMITTED\<rparr>) storage)
                   else (txn1, storage))
            in Inr (txn2\<lparr>status := ABORTED, abort_reason := ''Aborted by a TPC-C txn''\<rparr>, storage2))"

text \<open>
  An environment in which every string parses and every procedure succeeds, and a payment
  transaction with the nine arguments that \<open>Execute\<close> asks for.
\<close>

definition tpcc_example_env :: "(Key \<times> Value) list tpcc_env" where
  "tpcc_example_env =
     \<lparr>stoi = (\<lambda>s. Inr 1), stoll = (\<lambda>s. Inr 1), kTotalItems = 20,
      procedure_Execute = (\<lambda>call t. (True, t)),
      ApplyWrites = (\<lambda>t storage. write_set t @ storage)\<rparr>"

definition payment_example :: Transaction where
  "payment_example =
     new_Transaction\<lparr>write_set := [(''w'', ''v'')],
       procedures := [[''payment'', ''1'', ''1'', ''1'', ''1'', ''1'', ''1'', ''1'', ''1'']]\<rparr>"

section \<open>The sequencer: multi-home batches\<close>

text \<open>
  The configuration gives the local replica (region), the number of partitions and
  \<open>MakeMachineId\<close>; the macro \<open>REMASTER_PROTOCOL_COUNTERLESS\<close> is set by the build and is a
  field too. The sequencer holds its current single-home batch; what it sends is appended to
  \<open>sent\<close>. \<open>RecordTxnEvent\<close> only adds tracing events to a message and is left out.
\<close>

datatype Channel = kInterleaverChannel | kLocalPaxos

record Batch =
  transactions :: "Transaction list"
  transaction_type :: TransactionType

record 'm SequencerConfig =
  local_replica :: "32 word"
  num_partitions :: "32 word"
  MakeMachineId :: "32 word \<Rightarrow> 32 word \<Rightarrow> 'm"
  REMASTER_PROTOCOL_COUNTERLESS :: bool

record 'm Sequencer =
  batch :: Batch
  sent :: "(Batch \<times> Channel \<times> 'm) list"

definition PutSingleHomeTransactionIntoBatch :: "Transaction \<Rightarrow> 'm Sequencer \<Rightarrow> 'm Sequencer" where
  "PutSingleHomeTransactionIntoBatch txn seq =
     seq\<lparr>batch := (batch seq)\<lparr>transactions := transactions (batch seq) @ [txn]\<rparr>\<rparr>"

text \<open>
  The two loops that copy the keys mastered at the local replica, with their metadata.
  \<open>metadata.at(key)\<close> is fatal for a key without metadata.
\<close>

fun copy_local_keys ::
  "32 word \<Rightarrow> (Key \<times> MasterMetadata) list \<Rightarrow> (Key \<times> Value) list
     \<Rightarrow> (Key \<times> Value) list \<times> (Key \<times> MasterMetadata) list
     \<Rightarrow> fatal + ((Key \<times> Value) list \<times> (Key \<times> MasterMetadata) list)" where
  "copy_local_keys local_rep metadata [] acc = Inr acc"
| "copy_local_keys local_rep metadata (key_value # rest) acc =
     (case map_of metadata (fst key_value) of
        None \<Rightarrow> Inl KeyNotFound
      | Some mm \<Rightarrow>
          if master mm = local_rep
          then copy_local_keys local_rep metadata rest
                 (map_insert key_value (fst acc), map_insert (fst key_value, mm) (snd acc))
          else copy_local_keys local_rep metadata rest acc)"

text \<open>The body of the loop over the transactions of the batch, up to the lock-only transaction.\<close>

definition lock_only_txn :: "'m SequencerConfig \<Rightarrow> Transaction \<Rightarrow> fatal + Transaction" where
  "lock_only_txn config txn =
     (let local_rep = local_replica config; metadata = internal_master_metadata txn in
      case copy_local_keys local_rep metadata (read_set txn) ([], []) of
        Inl e \<Rightarrow> Inl e
      | Inr (lo_read_set, md1) \<Rightarrow>
          (case copy_local_keys local_rep metadata (write_set txn) ([], md1) of
             Inl e \<Rightarrow> Inl e
           | Inr (lo_write_set, md2) \<Rightarrow>
               let lo = new_Transaction\<lparr>read_set := lo_read_set, write_set := lo_write_set,
                                        internal_master_metadata := md2\<rparr>;
                   lo' =
                     (if REMASTER_PROTOCOL_COUNTERLESS config then
                        (case remaster_new_master txn of
                           None \<Rightarrow> lo
                         | Some new_master \<Rightarrow>
                             if new_master = local_rep
                             then txn\<lparr>is_new_master_lock_only := True\<rparr>
                             else lo\<lparr>remaster_new_master := Some new_master\<rparr>)
                      else lo)
               in Inr (lo'\<lparr>internal_id := internal_id txn, internal_type := LOCK_ONLY\<rparr>)))"

fun put_lock_only_txns ::
  "'m SequencerConfig \<Rightarrow> Transaction list \<Rightarrow> 'm Sequencer \<Rightarrow> fatal + 'm Sequencer" where
  "put_lock_only_txns config [] seq = Inr seq"
| "put_lock_only_txns config (txn # txns) seq =
     (case lock_only_txn config txn of
        Inl e \<Rightarrow> Inl e
      | Inr lo \<Rightarrow>
          put_lock_only_txns config txns
            (if read_set lo \<noteq> [] \<or> write_set lo \<noteq> []
             then PutSingleHomeTransactionIntoBatch lo seq else seq))"

definition ProcessMultiHomeBatch ::
  "'m SequencerConfig \<Rightarrow> Batch \<Rightarrow> 'm Sequencer \<Rightarrow> fatal + 'm Sequencer" where
  "ProcessMultiHomeBatch config b seq =
     (if transaction_type b \<noteq> MULTI_HOME then Inr seq
      else
        case put_lock_only_txns config (transactions b) seq of
          Inl e \<Rightarrow> Inl e
        | Inr seq' \<Rightarrow>
            Inr (seq'\<lparr>sent := sent seq' @
                   map (\<lambda>part. (b, kInterleaverChannel,
                                 MakeMachineId config (local_replica config) (word_of_nat part)))
                     [0 ..< unat (num_partitions config)]\<rparr>))"

text \<open>
  In the words of the specification: the entries of a read set or write set whose master,
  by the metadata, is the local region.
\<close>

definition local_entries ::
  "32 word \<Rightarrow> (Key \<times> MasterMetadata) list \<Rightarrow> (Key \<times> 'v) list \<Rightarrow> (Key \<times> 'v) list" where
  "local_entries local_rep md kvs =
     filter (\<lambda>kv. case map_of md (fst kv) of None \<Rightarrow> False
                  | Some mm \<Rightarrow> master mm = local_rep) kvs"

text \<open>
  A build with \<open>REMASTER_PROTOCOL_COUNTERLESS\<close> at region 1, and a remaster transaction that
  moves the key \<open>A\<close> from region 0 to region 1.
\<close>

definition remaster_example_config :: "(32 word \<times> 32 word) SequencerConfig" where
  "remaster_example_config =
     \<lparr>local_replica = 1, num_partitions = 2, MakeMachineId = (\<lambda>rep part. (rep, part)),
      REMASTER_PROTOCOL_COUNTERLESS = True\<rparr>"

definition remaster_example_txn :: Transaction where
  "remaster_example_txn =
     new_Transaction\<lparr>internal_id := 7, internal_type := MULTI_HOME,
       internal_master_metadata := [(''A'', \<lparr>master = 0, counter = 0\<rparr>)],
       write_set := [(''A'', ''v'')], remaster_new_master := Some 1\<rparr>"

text \<open>
  A build without the macro at region 0 with two partitions, and a multi-home batch of one
  transaction that reads \<open>A\<close> (mastered at region 0) and \<open>C\<close> (mastered at region 1).
\<close>

definition mh_example_config :: "(32 word \<times> 32 word) SequencerConfig" where
  "mh_example_config =
     \<lparr>local_replica = 0, num_partitions = 2, MakeMachineId = (\<lambda>rep part. (rep, part)),
      REMASTER_PROTOCOL_COUNTERLESS = False\<rparr>"

definition mh_example_txn :: Transaction where
  "mh_example_txn =
     new_Transaction\<lparr>internal_id := 9, internal_type := MULTI_HOME,
       internal_master_metadata :=
         [(''A'', \<lparr>master = 0, counter = 0\<rparr>), (''C'', \<lparr>master = 1, counter = 0\<rparr>)],
       read_set := [(''A'', ''a''), (''C'', ''c'')]\<rparr>"

definition mh_example_batch :: Batch where
  "mh_example_batch = \<lparr>transactions = [mh_example_txn], transaction_type = MULTI_HOME\<rparr>"

definition mh_example_sequencer :: "(32 word \<times> 32 word) Sequencer" where
  "mh_example_sequencer = \<lparr>batch = \<lparr>transactions = [], transaction_type = SINGLE_HOME\<rparr>, sent = []\<rparr>"

definition mh_example_lock_only :: Transaction where
  "mh_example_lock_only =
     new_Transaction\<lparr>internal_id := 9, internal_type := LOCK_ONLY,
       internal_master_metadata := [(''A'', \<lparr>master = 0, counter = 0\<rparr>)],
       read_set := [(''A'', ''a'')]\<rparr>"

definition mh_example_result :: "(32 word \<times> 32 word) Sequencer" where
  "mh_example_result =
     \<lparr>batch = \<lparr>transactions = [mh_example_lock_only], transaction_type = SINGLE_HOME\<rparr>,
      sent = [(mh_example_batch, kInterleaverChannel, (0, 0)),
              (mh_example_batch, kInterleaverChannel, (0, 1))]\<rparr>"

section \<open>The remaster manager\<close>

text \<open>
  The storage is a map from keys to records with their metadata. A transaction holder keeps
  the transaction and its keys in the local partition, as \<open>ExtractKeyPartitions\<close> computed
  them. \<open>blocked_queue_\<close> is a hash map from the machine id of a local log to a list of
  transactions: an association list, whose order stands for the iteration order.
\<close>

record Record =
  rec_value :: Value
  metadata :: MasterMetadata

type_synonym Storage = "Key \<rightharpoonup> Record"

type_synonym TxnReplicaId = "TxnId \<times> 32 word"

record TransactionHolder =
  txn :: Transaction
  keys_in_partition :: "(Key \<times> LockMode) list"



datatype VerifyMasterResult = VALID | WAITING | ABORT


type_synonym BlockedQueue = "(32 word \<times> TxnReplicaId list) list"

definition queue_at :: "BlockedQueue \<Rightarrow> 32 word \<Rightarrow> TxnReplicaId list" where
  "queue_at bq local_log_machine_id =
     (case map_of bq local_log_machine_id of None \<Rightarrow> [] | Some q \<Rightarrow> q)"

text \<open>The loop of \<open>CheckCounters\<close> over the keys in the partition.\<close>

fun check_counters ::
  "Storage \<Rightarrow> (Key \<times> MasterMetadata) list \<Rightarrow> (Key \<times> LockMode) list \<Rightarrow> fatal + VerifyMasterResult" where
  "check_counters storage txn_master_metadata [] = Inr VALID"
| "check_counters storage txn_master_metadata (key_pair # keys) =
     (case map_of txn_master_metadata (fst key_pair) of
        None \<Rightarrow> Inl KeyNotFound
      | Some mm \<Rightarrow>
          let txn_counter = counter mm in
          (case storage (fst key_pair) of
             None \<Rightarrow>
               if txn_counter < 0 then Inr ABORT
               else if txn_counter > 0 then Inr WAITING
               else check_counters storage txn_master_metadata keys
           | Some record \<Rightarrow>
               let storage_counter = counter (metadata record) in
               if master mm \<noteq> master (metadata record) then Inl MastersDontMatch
               else if txn_counter < storage_counter then Inr ABORT
               else if txn_counter > storage_counter then Inr WAITING
               else check_counters storage txn_master_metadata keys))"

definition CheckCounters :: "Storage \<Rightarrow> TransactionHolder \<Rightarrow> fatal + VerifyMasterResult" where
  "CheckCounters storage txn_holder =
     check_counters storage (internal_master_metadata (txn txn_holder))
       (keys_in_partition txn_holder)"

text \<open>\<open>VerifyMaster\<close> returns the result and the new blocked queues.\<close>

definition VerifyMaster ::
  "Storage \<Rightarrow> (TxnReplicaId \<rightharpoonup> TransactionHolder) \<Rightarrow> TxnReplicaId \<Rightarrow> BlockedQueue
     \<Rightarrow> fatal + (VerifyMasterResult \<times> BlockedQueue)" where
  "VerifyMaster storage all_txns txn_replica_id bq =
     (case all_txns txn_replica_id of
        None \<Rightarrow> Inl KeyNotFound
      | Some txn_holder \<Rightarrow>
          if keys_in_partition txn_holder = [] then Inr (VALID, bq)
          else
            let txn_master_metadata = internal_master_metadata (txn txn_holder) in
            if txn_master_metadata = [] then Inr (VALID, bq)
            else
              let local_log_machine_id = master (snd (hd txn_master_metadata)) in
              if map_of bq local_log_machine_id \<noteq> None \<and> queue_at bq local_log_machine_id \<noteq> []
              then Inr (WAITING,
                     AList.update local_log_machine_id
                       (queue_at bq local_log_machine_id @ [txn_replica_id]) bq)
              else
                (case CheckCounters storage txn_holder of
                   Inl e \<Rightarrow> Inl e
                 | Inr result \<Rightarrow>
                     if result = WAITING
                     then Inr (result,
                            AList.update local_log_machine_id
                              (queue_at bq local_log_machine_id @ [txn_replica_id]) bq)
                     else Inr (result, bq)))"




text \<open>
  In the words of the specification: the counter that the storage holds for a key (0 for a key
  it does not hold), and how the master and the counter that a transaction declares for a key
  compare with the storage.
\<close>

definition storage_counter :: "Storage \<Rightarrow> Key \<Rightarrow> 32 word" where
  "storage_counter storage key = (case storage key of None \<Rightarrow> 0 | Some r \<Rightarrow> counter (metadata r))"

















chapter \<open>Theorems\<close>

section \<open>The lock manager\<close>

lemmas lm_defs = MakeTransaction_def new_Transaction_def
    RegisterTxnAndAcquireLocks_def RegisterTxn_def AcquireLocks_def ExtractKeys_def contains_def
    acquire_key_def table_at_def count_at_def IsQueued_def AcquireReadLock_def AcquireWriteLock_def
    empty_LockState_def new_DeterministicLockManager_def ReleaseLocks_def release_key_def Release_def
    notify_holder_def LOCK_TABLE_SIZE_LIMIT_def Let_def

text \<open>
  C1 (the code at the scenario of the claim). \<open>txn1\<close> acquires the READ lock at once,
  \<open>txn2\<close> and \<open>txn3\<close> wait. The waiting WRITE request of \<open>txn2\<close> is queued with the tag
  READ, so \<open>ReleaseLocks(txn1)\<close> grants the lock to \<open>txn2\<close> and \<open>txn3\<close> together, in mode
  READ, and returns both as ready; \<open>ReleaseLocks(txn2)\<close> then makes nothing ready.
\<close>

theorem C1_release_readies_writer_and_reader_together:
  "read_write_read_scenario =
     Inr (True, False, False, [2, 3],
          \<lparr>mode = READ, holders = [3, 2], waiters = [], waiter_queue = []\<rparr>, [])"
  by (simp add: read_write_read_scenario_def lm_defs)

text \<open>
  C3 (the code at a failing input). On one entry: a READ request of transaction 1, a WRITE
  request of transaction 2, then the release of 1. The entry is then in mode READ and its
  only holder is transaction 2, whose request was a WRITE request.
\<close>

theorem C3_writer_holds_in_read_mode:
  "entry_run [CallAcquireReadLock 1, CallAcquireWriteLock 2, CallRelease 1] empty_LockState
     = Some \<lparr>mode = READ, holders = [2], waiters = [], waiter_queue = []\<rparr>
   \<and> requested [CallAcquireReadLock 1, CallAcquireWriteLock 2, CallRelease 1] 2 = Some WRITE"
  by (simp add: lm_defs)

text \<open>
  C7. A transaction none of whose read-set or write-set keys lies in the local partition:
  \<open>RegisterTxn\<close> returns false (and leaves the lock manager as it was).
\<close>

theorem C7_RegisterTxn_no_local_key:
  assumes "\<forall>k \<in> fst ` set (read_set t) \<union> fst ` set (write_set t). \<not> KeyIsInLocalPartition k"
  shows "RegisterTxn KeyIsInLocalPartition t lm = (False, lm)"
proof -
  have "ExtractKeys KeyIsInLocalPartition t = []"
    using assms by (auto simp: ExtractKeys_def filter_empty_conv)
  then show ?thesis by (simp add: RegisterTxn_def)
qed

theorem C7_RegisterTxn_no_local_key_witness:
  "RegisterTxn (\<lambda>k. k = ''A'') (MakeTransaction 100 [] [''X'']) new_DeterministicLockManager
     = (False, new_DeterministicLockManager)"
proof -
  have h: "\<forall>k \<in> fst ` set (read_set (MakeTransaction 100 [] [''X''])) \<union>
          fst ` set (write_set (MakeTransaction 100 [] [''X''])). \<not> (\<lambda>k. k = ''A'') k"
    by (simp add: MakeTransaction_def new_Transaction_def)
  show ?thesis using C7_RegisterTxn_no_local_key [OF h] .
qed

subsection \<open>Outstanding counts\<close>

text \<open>The invariant of an entry is kept by the three operations.\<close>

lemma entry_inv_empty: "entry_inv empty_LockState"
  by (simp add: entry_inv_def empty_LockState_def)

lemma entry_inv_AcquireReadLock:
  assumes "entry_inv s"
  shows "entry_inv (snd (AcquireReadLock t s))"
  using assms
  by (cases "mode s") (auto simp: entry_inv_def AcquireReadLock_def List.insert_def)

lemma entry_inv_AcquireWriteLock:
  assumes "entry_inv s"
  shows "entry_inv (snd (AcquireWriteLock t s))"
  using assms
  by (cases "mode s") (auto simp: entry_inv_def AcquireWriteLock_def List.insert_def)

lemma grant_read_locks_all_read:
  assumes "list_all (\<lambda>p. snd p = READ) q" and "q \<noteq> []"
  shows "mode (grant_read_locks s q) = mode s
    \<and> waiter_queue (grant_read_locks s q) = []
    \<and> set (holders (grant_read_locks s q)) = set (holders s) \<union> fst ` set q
    \<and> set (waiters (grant_read_locks s q)) = set (waiters s) - fst ` set q
    \<and> (distinct (holders s) \<longrightarrow> distinct (holders (grant_read_locks s q)))"
  using assms
proof (induction q arbitrary: s)
  case Nil
  then show ?case by simp
next
  case (Cons front rest)
  let ?s' = "s\<lparr>holders := List.insert (fst front) (holders s),
                  waiters := removeAll (fst front) (waiters s),
                  waiter_queue := rest\<rparr>"
  show ?case
  proof (cases "rest = []")
    case True
    then show ?thesis by auto
  next
    case False
    then have rd: "snd (hd rest) = READ" using Cons.prems(1) by (cases rest) auto
    have all: "list_all (\<lambda>p. snd p = READ) rest" using Cons.prems(1) by simp
    have eq: "grant_read_locks s (front # rest) = grant_read_locks ?s' rest"
      using False rd by simp
    note IH = Cons.IH [OF all False, of ?s']
    show ?thesis unfolding eq using IH by auto
  qed
qed

lemma entry_inv_UNLOCKED:
  assumes "entry_inv s" and "mode s = UNLOCKED"
  shows "s = empty_LockState"
  using assms by (cases s) (auto simp: entry_inv_def empty_LockState_def)

lemma removeAll_Nil_D: "removeAll t xs = [] \<Longrightarrow> i \<noteq> t \<Longrightarrow> i \<notin> set xs"
  by (induction xs) (auto split: if_splits)

lemma Release_result:
  assumes inv: "entry_inv s"
  shows "\<exists>nh s'. Release t s = Some (nh, s') \<and> entry_inv s' \<and> distinct nh
     \<and> (\<forall>i. i \<noteq> t \<longrightarrow> (i \<in> set (holders s') \<longleftrightarrow> i \<in> set (holders s) \<or> i \<in> set nh))
     \<and> (\<forall>i. i \<noteq> t \<longrightarrow> i \<in> set nh \<longrightarrow> i \<in> set (waiters s) \<and> i \<notin> set (holders s))
     \<and> (\<forall>i. i \<noteq> t \<longrightarrow> (i \<in> set (waiters s') \<longleftrightarrow> i \<in> set (waiters s) \<and> i \<notin> set nh))"
proof (cases "t \<in> set (holders s)")
  case False
  let ?s' = "s\<lparr>waiter_queue := filter (\<lambda>pair. fst pair \<noteq> t) (waiter_queue s),
                waiters := removeAll t (waiters s)\<rparr>"
  have r: "Release t s = Some ([], ?s')" using False by (simp add: Release_def)
  have "entry_inv ?s'" using inv by (auto simp: entry_inv_def list_all_iff)
  then show ?thesis using r
    by (intro exI [of _ "[]"] exI [of _ ?s'] conjI) simp_all
next
  case True
  let ?s1 = "s\<lparr>holders := removeAll t (holders s)\<rparr>"
  have nu: "mode s \<noteq> UNLOCKED" using inv True by (auto simp: entry_inv_def)
  show ?thesis
  proof (cases "removeAll t (holders s) = []")
    case False
    have r: "Release t s = Some ([], ?s1)" using True False by (simp add: Release_def)
    have nw: "mode s \<noteq> WRITE"
    proof
      assume "mode s = WRITE"
      then have "length (holders s) = 1" using inv by (simp add: entry_inv_def)
      then obtain x where "holders s = [x]" by (cases "holders s") auto
      then show False using True False by auto
    qed
    have "entry_inv ?s1" using inv nu nw False by (auto simp: entry_inv_def distinct_removeAll)
    then show ?thesis using r
      by (intro exI [of _ "[]"] exI [of _ ?s1] conjI) simp_all
  next
    case empty: True
    show ?thesis
    proof (cases "waiters s = []")
      case True
      let ?s2 = "?s1\<lparr>mode := UNLOCKED\<rparr>"
      have r: "Release t s = Some ([], ?s2)" using \<open>t \<in> set (holders s)\<close> empty True
        by (simp add: Release_def)
      have "waiter_queue s = []" using inv True by (auto simp: entry_inv_def)
      then have "entry_inv ?s2" using inv empty True by (simp add: entry_inv_def)
      moreover have "\<forall>i. i \<noteq> t \<longrightarrow> i \<notin> set (holders s)"
        using removeAll_Nil_D [OF empty] by blast
      ultimately show ?thesis using r empty
        by (intro exI [of _ "[]"] exI [of _ ?s2] conjI) simp_all
    next
      case False
      then obtain front rest where q: "waiter_queue s = front # rest"
        using inv by (cases "waiter_queue s") (auto simp: entry_inv_def)
      have all: "list_all (\<lambda>p. snd p = READ) (front # rest)"
        using inv q by (simp add: entry_inv_def)
      then have fr: "snd front = READ" by simp
      define g where "g = grant_read_locks ?s1 (front # rest)"
      define s2 where "s2 = g\<lparr>mode := READ\<rparr>"
      have r: "Release t s = Some (holders s2, s2)"
        using \<open>t \<in> set (holders s)\<close> empty False q fr
        by (simp add: Release_def Let_def g_def s2_def del: grant_read_locks.simps)
      have g: "waiter_queue g = []"
        "set (holders g) = fst ` set (front # rest)"
        "set (waiters g) = set (waiters s) - fst ` set (front # rest)"
        "distinct (holders g)"
        unfolding g_def
        using grant_read_locks_all_read [OF all, of ?s1] empty by simp_all
      have ws: "set (waiters s) = fst ` set (front # rest)"
        using inv q by (simp add: entry_inv_def)
      have wg: "waiters g = []" using g(3) ws by simp
      have hne: "holders g \<noteq> []" using g(2) by auto
      have i2: "entry_inv s2"
        using g wg hne by (simp add: entry_inv_def s2_def)
      have nh: "\<forall>i. i \<noteq> t \<longrightarrow> i \<notin> set (holders s)"
        using removeAll_Nil_D [OF empty] by blast
      have d2: "distinct (holders s2)" using g(4) by (simp add: s2_def)
      have hw: "set (holders s2) = set (waiters s)" using g(2) ws by (simp add: s2_def)
      have w2: "waiters s2 = []" using wg by (simp add: s2_def)
      have p1: "\<forall>i. i \<noteq> t \<longrightarrow>
          (i \<in> set (holders s2) \<longleftrightarrow> i \<in> set (holders s) \<or> i \<in> set (holders s2))"
        using nh by blast
      have p2: "\<forall>i. i \<noteq> t \<longrightarrow> i \<in> set (holders s2)
          \<longrightarrow> i \<in> set (waiters s) \<and> i \<notin> set (holders s)"
        using nh by (simp add: hw)
      have p3: "\<forall>i. i \<noteq> t \<longrightarrow>
          (i \<in> set (waiters s2) \<longleftrightarrow> i \<in> set (waiters s) \<and> i \<notin> set (holders s2))"
        by (simp add: hw w2)
      show ?thesis
        using r i2 d2 p1 p2 p3
        by (intro exI [of _ "holders s2"] exI [of _ s2]) blast
    qed
  qed
qed

lemma table_at_update:
  "table_at (AList.update k v tbl) k' = (if k' = k then v else table_at tbl k')"
  by (simp add: table_at_def update_conv')

lemma table_at_delete:
  "table_at (AList.delete k tbl) k' = (if k' = k then empty_LockState else table_at tbl k')"
  by (simp add: table_at_def delete_conv')

lemma count_at_upd [simp]:
  "count_at (cnt(u \<mapsto> c)) i = (if i = u then c else count_at cnt i)"
  "count_at (cnt(u := None)) i = (if i = u then 0 else count_at cnt i)"
  by (simp_all add: count_at_def)

lemma filter_length_cong:
  "(\<And>x. x \<in> set xs \<Longrightarrow> Q x = P x) \<Longrightarrow> length (filter Q xs) = length (filter P xs)"
  by (induction xs) auto

lemma filter_length_Suc:
  assumes "distinct xs" "x \<in> set xs" "\<not> P x" "Q x" "\<And>y. y \<in> set xs \<Longrightarrow> y \<noteq> x \<Longrightarrow> Q y = P y"
  shows "length (filter Q xs) = Suc (length (filter P xs))"
  using assms
proof (induction xs)
  case Nil
  then show ?case by simp
next
  case (Cons a xs)
  show ?case
  proof (cases "a = x")
    case True
    then have "x \<notin> set xs" using Cons.prems(1) by simp
    then have "length (filter Q xs) = length (filter P xs)"
      using Cons.prems(5) by (intro filter_length_cong) auto
    then show ?thesis using True Cons.prems(3,4) by simp
  next
    case False
    then have x: "x \<in> set xs" using Cons.prems(2) by simp
    have "length (filter Q xs) = Suc (length (filter P xs))"
      using Cons.prems x by (intro Cons.IH) auto
    moreover have "Q a = P a" using Cons.prems(5) False by simp
    ultimately show ?thesis by simp
  qed
qed

lemma held_same:
  assumes "\<And>k. k \<in> set keys \<Longrightarrow>
      (i \<in> set (holders (table_at (lock_table lm') k))) = (i \<in> set (holders (table_at (lock_table lm) k)))"
  shows "held i keys lm' = held i keys lm"
  unfolding held_def using assms by (intro filter_length_cong) simp

lemma held_Suc:
  assumes "distinct keys" "k \<in> set keys"
    and "i \<notin> set (holders (table_at (lock_table lm) k))"
    and "i \<in> set (holders (table_at (lock_table lm') k))"
    and "\<And>k'. k' \<noteq> k \<Longrightarrow> table_at (lock_table lm') k' = table_at (lock_table lm) k'"
  shows "held i keys lm' = Suc (held i keys lm)"
  unfolding held_def using assms by (intro filter_length_Suc [where x = k]) simp_all

lemma AcquireReadLock_result:
  assumes "\<not> IsQueued u s" and "entry_inv s"
  shows "(\<forall>j. j \<noteq> u \<longrightarrow> (j \<in> set (holders (snd (AcquireReadLock u s)))) = (j \<in> set (holders s))
              \<and> (j \<in> set (waiters (snd (AcquireReadLock u s)))) = (j \<in> set (waiters s)))
    \<and> (fst (AcquireReadLock u s) \<longleftrightarrow> u \<in> set (holders (snd (AcquireReadLock u s))))
    \<and> IsQueued u (snd (AcquireReadLock u s))"
  using assms by (cases "mode s") (auto simp: AcquireReadLock_def IsQueued_def)

lemma AcquireWriteLock_result:
  assumes "\<not> IsQueued u s" and "entry_inv s"
  shows "(\<forall>j. j \<noteq> u \<longrightarrow> (j \<in> set (holders (snd (AcquireWriteLock u s)))) = (j \<in> set (holders s))
              \<and> (j \<in> set (waiters (snd (AcquireWriteLock u s)))) = (j \<in> set (waiters s)))
    \<and> (fst (AcquireWriteLock u s) \<longleftrightarrow> u \<in> set (holders (snd (AcquireWriteLock u s))))
    \<and> IsQueued u (snd (AcquireWriteLock u s))"
  using assms by (cases "mode s") (auto simp: AcquireWriteLock_def IsQueued_def)

text \<open>One key of AcquireLocks.\<close>

lemma acquire_key_result:
  assumes inv: "lm_inv lm" and ok: "acquire_key u (k, m) lm = Inr lm'"
  shows "lm_inv lm'
    \<and> (\<forall>k'. k' \<noteq> k \<longrightarrow> table_at (lock_table lm') k' = table_at (lock_table lm) k')
    \<and> (\<forall>j. j \<noteq> u \<longrightarrow>
          (j \<in> set (holders (table_at (lock_table lm') k)))
            = (j \<in> set (holders (table_at (lock_table lm) k)))
        \<and> (j \<in> set (waiters (table_at (lock_table lm') k)))
            = (j \<in> set (waiters (table_at (lock_table lm) k)))
        \<and> count_at (num_locks_waited lm') j = count_at (num_locks_waited lm) j)
    \<and> (IsQueued u (table_at (lock_table lm) k) \<longrightarrow>
          table_at (lock_table lm') k = table_at (lock_table lm) k
        \<and> count_at (num_locks_waited lm') u = count_at (num_locks_waited lm) u)
    \<and> (\<not> IsQueued u (table_at (lock_table lm) k) \<longrightarrow>
          IsQueued u (table_at (lock_table lm') k)
        \<and> count_at (num_locks_waited lm') u = count_at (num_locks_waited lm) u
            - (if u \<in> set (holders (table_at (lock_table lm') k)) then 1 else 0))"
proof -
  let ?s = "table_at (lock_table lm) k"
  have es: "entry_inv ?s" using inv by (simp add: lm_inv_def)
  have m: "m \<noteq> UNLOCKED" using ok by (auto simp: acquire_key_def Let_def)
  show ?thesis
  proof (cases "IsQueued u ?s")
    case True
    then have lm': "lm' = lm\<lparr>lock_table := AList.update k ?s (lock_table lm)\<rparr>"
      using ok m by (simp add: acquire_key_def Let_def)
    have t: "table_at (lock_table lm') k' = table_at (lock_table lm) k'" for k'
      by (simp add: lm' table_at_update)
    have "lm_inv lm'" using inv by (simp add: lm_inv_def t)
    then show ?thesis using True by (simp add: t) (simp add: lm')
  next
    case False
    define r where "r = (if m = READ then AcquireReadLock u ?s else AcquireWriteLock u ?s)"
    have lm': "lm' = lm\<lparr>lock_table := AList.update k (snd r) (lock_table lm),
                 num_locks_waited :=
                   (if fst r then (num_locks_waited lm)
                                  (u \<mapsto> count_at (num_locks_waited lm) u - 1)
                    else num_locks_waited lm)\<rparr>"
      using ok m False by (simp add: acquire_key_def Let_def r_def split_beta)
    have res: "(\<forall>j. j \<noteq> u \<longrightarrow> (j \<in> set (holders (snd r))) = (j \<in> set (holders ?s))
              \<and> (j \<in> set (waiters (snd r))) = (j \<in> set (waiters ?s)))
        \<and> (fst r \<longleftrightarrow> u \<in> set (holders (snd r))) \<and> IsQueued u (snd r)"
      unfolding r_def
      using AcquireReadLock_result [OF False es] AcquireWriteLock_result [OF False es]
      by (cases "m = READ") simp_all
    have er: "entry_inv (snd r)"
      unfolding r_def
      using entry_inv_AcquireReadLock [OF es] entry_inv_AcquireWriteLock [OF es] by simp
    have tk: "table_at (lock_table lm') k = snd r" by (simp add: lm' table_at_update)
    have to: "table_at (lock_table lm') k' = table_at (lock_table lm) k'" if "k' \<noteq> k" for k'
      using that by (simp add: lm' table_at_update)
    have i': "lm_inv lm'"
      unfolding lm_inv_def
    proof
      fix k' show "entry_inv (table_at (lock_table lm') k')"
        using er inv tk to by (cases "k' = k") (simp_all add: lm_inv_def)
    qed
    have cj: "count_at (num_locks_waited lm') j = count_at (num_locks_waited lm) j" if "j \<noteq> u" for j
      using that by (simp add: lm')
    have cu: "count_at (num_locks_waited lm') u = count_at (num_locks_waited lm) u
            - (if u \<in> set (holders (snd r)) then 1 else 0)"
      using res by (simp add: lm')
    show ?thesis using False i' to cj cu res by (simp add: tk)
  qed
qed

lemma txn_inv_transfer:
  assumes "txn_inv i keys reg acq lm" and "lm_inv lm'"
    and "\<And>k. IsQueued i (table_at (lock_table lm') k) \<Longrightarrow> IsQueued i (table_at (lock_table lm) k)"
    and "\<And>k. (i \<in> set (holders (table_at (lock_table lm') k)))
              = (i \<in> set (holders (table_at (lock_table lm) k)))"
    and "count_at (num_locks_waited lm') i = count_at (num_locks_waited lm) i"
  shows "txn_inv i keys reg acq lm'"
proof -
  have "held i keys lm' = held i keys lm" using assms(4) by (intro held_same) simp
  then show ?thesis using assms unfolding txn_inv_def by auto
qed

lemma txn_inv_weaken: "txn_inv i keys reg False lm \<Longrightarrow> txn_inv i keys reg True lm"
  by (simp add: txn_inv_def)

lemma RegisterTxn_other:
  assumes "txn_inv i keys reg acq lm" and "RegisterTxn loc u lm = (b, lm')"
    and "internal_id u \<noteq> i"
  shows "txn_inv i keys reg acq lm'"
proof -
  have t: "lock_table lm' = lock_table lm"
    using assms(2) by (auto simp: RegisterTxn_def Let_def split: if_splits)
  have c: "count_at (num_locks_waited lm') i = count_at (num_locks_waited lm) i"
    using assms(2,3) by (auto simp: RegisterTxn_def Let_def split: if_splits)
  have "lm_inv lm'" using assms(1) t by (simp add: txn_inv_def lm_inv_def)
  then show ?thesis using assms(1) t c by (intro txn_inv_transfer [OF assms(1)]) simp_all
qed

lemma RegisterTxn_own:
  assumes inv: "txn_inv i keys False acq lm" and r: "RegisterTxn loc t lm = (b, lm')"
    and i: "internal_id t = i" and k: "keys = map fst (ExtractKeys loc t)" and ne: "keys \<noteq> []"
  shows "txn_inv i keys True acq lm' \<and> (b \<longleftrightarrow> count_at (num_locks_waited lm') i = 0)"
proof -
  have ek: "ExtractKeys loc t \<noteq> []" using k ne by auto
  have len: "length (ExtractKeys loc t) = length keys" using k by simp
  have t: "lock_table lm' = lock_table lm"
    using r by (auto simp: RegisterTxn_def Let_def split: if_splits)
  have h: "held i keys lm' = held i keys lm" by (simp add: held_def t)
  have c0: "count_at (num_locks_waited lm) i = - int (held i keys lm)"
    using inv by (simp add: txn_inv_def)
  have c: "count_at (num_locks_waited lm') i = count_at (num_locks_waited lm) i + int (length keys)"
    and b: "b \<longleftrightarrow> count_at (num_locks_waited lm) i + int (length keys) = 0"
    using r ek i len by (auto simp: RegisterTxn_def Let_def split: if_splits)
  have "txn_inv i keys True acq lm'"
    using inv t h c c0 by (simp add: txn_inv_def lm_inv_def)
  then show ?thesis using b c by simp
qed

lemma acquire_keys_other:
  assumes "txn_inv i keys reg acq lm" and "acquire_keys u ps lm = Inr lm'" and "u \<noteq> i"
  shows "txn_inv i keys reg acq lm'"
  using assms
proof (induction ps arbitrary: lm)
  case Nil
  then show ?case by simp
next
  case (Cons p ps)
  obtain lm1 where a: "acquire_key u p lm = Inr lm1" and rest: "acquire_keys u ps lm1 = Inr lm'"
    using Cons.prems(2) by (cases "acquire_key u p lm") auto
  obtain k m where p: "p = (k, m)" by (cases p)
  have inv: "lm_inv lm" using Cons.prems(1) by (simp add: txn_inv_def)
  note R = acquire_key_result [OF inv a [unfolded p]]
  have i1: "lm_inv lm1" using R by blast
  have same: "(i \<in> set (holders (table_at (lock_table lm1) k')))
            = (i \<in> set (holders (table_at (lock_table lm) k')))
        \<and> (i \<in> set (waiters (table_at (lock_table lm1) k')))
            = (i \<in> set (waiters (table_at (lock_table lm) k')))" for k'
    using R Cons.prems(3) by (cases "k' = k") auto
  have c: "count_at (num_locks_waited lm1) i = count_at (num_locks_waited lm) i"
    using R Cons.prems(3) by auto
  have "txn_inv i keys reg acq lm1"
    using i1 same c by (intro txn_inv_transfer [OF Cons.prems(1)]) (simp_all add: IsQueued_def)
  then show ?case using Cons.IH rest Cons.prems(3) by blast
qed

lemma AcquireLocks_other:
  assumes "txn_inv i keys reg acq lm" and "AcquireLocks loc u lm = Inr (b, lm')"
    and "internal_id u \<noteq> i"
  shows "txn_inv i keys reg acq lm'"
proof (cases "ExtractKeys loc u = []")
  case True
  then show ?thesis using assms by (simp add: AcquireLocks_def)
next
  case False
  obtain lm1 where a: "acquire_keys (internal_id u) (ExtractKeys loc u) lm = Inr lm1"
    using assms(2) False
    by (cases "acquire_keys (internal_id u) (ExtractKeys loc u) lm")
       (auto simp: AcquireLocks_def Let_def)
  have i1: "txn_inv i keys reg acq lm1" using acquire_keys_other [OF assms(1) a assms(3)] .
  have t: "lock_table lm' = lock_table lm1"
    using assms(2) False a by (auto simp: AcquireLocks_def Let_def split: if_splits)
  have c: "count_at (num_locks_waited lm') i = count_at (num_locks_waited lm1) i"
    using assms(2,3) False a by (auto simp: AcquireLocks_def Let_def split: if_splits)
  have "lm_inv lm'" using i1 t by (simp add: txn_inv_def lm_inv_def)
  then show ?thesis using t c by (intro txn_inv_transfer [OF i1]) simp_all
qed

lemma acquire_keys_own:
  assumes "lm_inv lm"
    and "\<forall>k. IsQueued i (table_at (lock_table lm) k) \<longrightarrow> k \<in> D"
    and "D \<inter> fst ` set ps = {}" and "distinct (map fst ps)"
    and "distinct keys" and "fst ` set ps \<subseteq> set keys"
    and "count_at (num_locks_waited lm) i = base - int (held i keys lm)"
    and "acquire_keys i ps lm = Inr lm'"
  shows "lm_inv lm'
    \<and> (\<forall>k. IsQueued i (table_at (lock_table lm') k) \<longrightarrow> k \<in> D \<union> fst ` set ps)
    \<and> count_at (num_locks_waited lm') i = base - int (held i keys lm')"
  using assms
proof (induction ps arbitrary: lm D)
  case Nil
  then show ?case by simp
next
  case (Cons p ps)
  obtain lm1 where a: "acquire_key i p lm = Inr lm1" and rest: "acquire_keys i ps lm1 = Inr lm'"
    using Cons.prems(8) by (cases "acquire_key i p lm") auto
  obtain k m where p: "p = (k, m)" by (cases p)
  note R = acquire_key_result [OF Cons.prems(1) a [unfolded p]]
  have kD: "k \<notin> D" using Cons.prems(3) p by auto
  have kk: "k \<in> set keys" using Cons.prems(6) p by auto
  have nq: "\<not> IsQueued i (table_at (lock_table lm) k)" using Cons.prems(2) kD by blast
  then have nh: "i \<notin> set (holders (table_at (lock_table lm) k))" by (simp add: IsQueued_def)
  have i1: "lm_inv lm1" using R by blast
  have oth: "table_at (lock_table lm1) k' = table_at (lock_table lm) k'" if "k' \<noteq> k" for k'
    using R that by blast
  have q1: "IsQueued i (table_at (lock_table lm1) k)" using R nq by blast
  have c1: "count_at (num_locks_waited lm1) i = count_at (num_locks_waited lm) i
            - (if i \<in> set (holders (table_at (lock_table lm1) k)) then 1 else 0)"
    using R nq by blast
  have h1: "int (held i keys lm1) = int (held i keys lm)
            + (if i \<in> set (holders (table_at (lock_table lm1) k)) then 1 else 0)"
  proof (cases "i \<in> set (holders (table_at (lock_table lm1) k))")
    case True
    then have "held i keys lm1 = Suc (held i keys lm)"
      using Cons.prems(5) kk nh oth by (intro held_Suc [where k = k]) simp_all
    then show ?thesis using True by simp
  next
    case False
    have "held i keys lm1 = held i keys lm"
    proof (rule held_same)
      fix k' assume "k' \<in> set keys"
      show "(i \<in> set (holders (table_at (lock_table lm1) k')))
          = (i \<in> set (holders (table_at (lock_table lm) k')))"
        using False nh oth by (cases "k' = k") simp_all
    qed
    then show ?thesis using False by simp
  qed
  have cnt1: "count_at (num_locks_waited lm1) i = base - int (held i keys lm1)"
    using c1 h1 Cons.prems(7) by simp
  have q: "\<forall>k'. IsQueued i (table_at (lock_table lm1) k') \<longrightarrow> k' \<in> insert k D"
    using Cons.prems(2) oth by (metis insertCI)
  have d1: "insert k D \<inter> fst ` set ps = {}" using Cons.prems(3,4) p by auto
  have "lm_inv lm'
    \<and> (\<forall>k'. IsQueued i (table_at (lock_table lm') k') \<longrightarrow> k' \<in> insert k D \<union> fst ` set ps)
    \<and> count_at (num_locks_waited lm') i = base - int (held i keys lm')"
    using Cons.prems(4,5,6) by (intro Cons.IH [OF i1 q d1 _ _ _ cnt1 rest]) simp_all
  then show ?case using p by simp
qed

lemma distinct_ExtractKeys:
  assumes "distinct (map fst (read_set t))" and "distinct (map fst (write_set t))"
  shows "distinct (map fst (ExtractKeys loc t))"
proof -
  have 1: "distinct (map fst (filter P (read_set t)))" for P
    using assms(1) by (simp add: distinct_map_filter)
  have 2: "distinct (map fst (filter P (write_set t)))" for P
    using assms(2) by (simp add: distinct_map_filter)
  show ?thesis
    unfolding ExtractKeys_def
    using 1 2 by (auto simp: comp_def contains_def)
qed

lemma ExtractKeys_modes: "p \<in> set (ExtractKeys loc t) \<Longrightarrow> snd p \<noteq> UNLOCKED"
  by (auto simp: ExtractKeys_def)

lemma AcquireLocks_own:
  assumes inv: "txn_inv i keys reg False lm" and a: "AcquireLocks loc t lm = Inr (b, lm')"
    and i: "internal_id t = i" and k: "keys = map fst (ExtractKeys loc t)" and ne: "keys \<noteq> []"
    and d: "distinct keys"
  shows "txn_inv i keys reg True lm' \<and> (b \<longleftrightarrow> count_at (num_locks_waited lm') i = 0)"
proof -
  have ek: "ExtractKeys loc t \<noteq> []" using k ne by auto
  obtain lm1 where a1: "acquire_keys i (ExtractKeys loc t) lm = Inr lm1"
    using a ek i
    by (cases "acquire_keys i (ExtractKeys loc t) lm") (auto simp: AcquireLocks_def Let_def)
  have li: "lm_inv lm" using inv by (simp add: txn_inv_def)
  have nq: "\<forall>k. IsQueued i (table_at (lock_table lm) k) \<longrightarrow> k \<in> {}"
    using inv by (simp add: txn_inv_def)
  have c: "count_at (num_locks_waited lm) i
      = (if reg then int (length keys) else 0) - int (held i keys lm)"
    using inv by (simp add: txn_inv_def)
  have R: "lm_inv lm1
    \<and> (\<forall>ka. IsQueued i (table_at (lock_table lm1) ka) \<longrightarrow> ka \<in> {} \<union> fst ` set (ExtractKeys loc t))
    \<and> count_at (num_locks_waited lm1) i
        = (if reg then int (length keys) else 0) - int (held i keys lm1)"
    using d k by (intro acquire_keys_own [OF li nq _ _ _ _ c a1]) simp_all
  have t: "lock_table lm' = lock_table lm1"
    using a ek a1 i by (auto simp: AcquireLocks_def Let_def split: if_splits)
  have c': "count_at (num_locks_waited lm') i = count_at (num_locks_waited lm1) i"
    and b: "b \<longleftrightarrow> count_at (num_locks_waited lm1) i = 0"
    using a ek a1 i by (auto simp: AcquireLocks_def Let_def split: if_splits)
  have h: "held i keys lm' = held i keys lm1" by (simp add: held_def t)
  have "txn_inv i keys reg True lm'"
    using R t c' h k by (simp add: txn_inv_def lm_inv_def)
  then show ?thesis using b c' by simp
qed

lemma notify_holder_result:
  "count_at (fst (notify_holder h (cnt, ready))) i = count_at cnt i - (if i = h then 1 else 0)
   \<and> (i \<in> set (snd (notify_holder h (cnt, ready)))
        \<longleftrightarrow> i \<in> set ready \<or> (i = h \<and> count_at cnt i - 1 = 0))"
  by (auto simp: notify_holder_def Let_def)

lemma fold_notify_holder:
  assumes "distinct nh"
  shows "count_at (fst (fold notify_holder nh (cnt, ready))) i
           = count_at cnt i - (if i \<in> set nh then 1 else 0)
   \<and> (i \<in> set (snd (fold notify_holder nh (cnt, ready)))
        \<longleftrightarrow> i \<in> set ready \<or> (i \<in> set nh \<and> count_at cnt i - 1 = 0))"
  using assms
proof (induction nh arbitrary: cnt ready)
  case Nil
  then show ?case by simp
next
  case (Cons h nh)
  obtain cnt1 ready1 where n: "notify_holder h (cnt, ready) = (cnt1, ready1)"
    by (cases "notify_holder h (cnt, ready)")
  have d: "distinct nh" and hn: "h \<notin> set nh" using Cons.prems by simp_all
  note N = notify_holder_result [of h cnt ready i, unfolded n, simplified]
  note IH = Cons.IH [OF d, of cnt1 ready1]
  show ?case
  proof (cases "i = h")
    case True
    then show ?thesis using N IH hn n by simp
  next
    case False
    then show ?thesis using N IH n by simp
  qed
qed

lemma held_less:
  assumes "k \<in> set keys" and "i \<notin> set (holders (table_at (lock_table lm) k))"
  shows "held i keys lm < length keys"
  unfolding held_def using assms by (intro length_filter_less [where x = k]) simp_all

text \<open>One key of ReleaseLocks, seen from another transaction.\<close>

lemma release_key_result:
  assumes inv: "lm_inv lm" and ok: "release_key loc u (k, m) (lm, ready) = Inr (lm', ready')"
    and iu: "i \<noteq> u"
  shows "lm_inv lm'
    \<and> (\<forall>k'. k' \<noteq> k \<longrightarrow> table_at (lock_table lm') k' = table_at (lock_table lm) k')
    \<and> (i \<in> set (waiters (table_at (lock_table lm') k))
          \<longrightarrow> i \<in> set (waiters (table_at (lock_table lm) k)))
    \<and> (i \<in> set (holders (table_at (lock_table lm) k))
          \<longrightarrow> i \<in> set (holders (table_at (lock_table lm') k)))
    \<and> (i \<in> set (holders (table_at (lock_table lm') k))
          \<and> i \<notin> set (holders (table_at (lock_table lm) k))
          \<longrightarrow> i \<in> set (waiters (table_at (lock_table lm) k)))
    \<and> count_at (num_locks_waited lm') i = count_at (num_locks_waited lm) i
         - (if i \<in> set (holders (table_at (lock_table lm') k))
               \<and> i \<notin> set (holders (table_at (lock_table lm) k)) then 1 else 0)
    \<and> (i \<in> set ready' \<longleftrightarrow> i \<in> set ready
         \<or> (i \<in> set (holders (table_at (lock_table lm') k))
             \<and> i \<notin> set (holders (table_at (lock_table lm) k))
             \<and> count_at (num_locks_waited lm') i = 0))"
proof (cases "loc k")
  case False
  then have "lm' = lm" "ready' = ready" using ok by (simp_all add: release_key_def)
  then show ?thesis using inv by auto
next
  case True
  let ?s = "table_at (lock_table lm) k"
  have es: "entry_inv ?s" using inv by (simp add: lm_inv_def)
  from Release_result [OF es, of u] obtain nh s' where r: "Release u ?s = Some (nh, s')"
    and es': "entry_inv s'" and dn: "distinct nh"
    and hs: "\<forall>j. j \<noteq> u \<longrightarrow> (j \<in> set (holders s') \<longleftrightarrow> j \<in> set (holders ?s) \<or> j \<in> set nh)"
    and nhs: "\<forall>j. j \<noteq> u \<longrightarrow> j \<in> set nh \<longrightarrow> j \<in> set (waiters ?s) \<and> j \<notin> set (holders ?s)"
    and ws: "\<forall>j. j \<noteq> u \<longrightarrow> (j \<in> set (waiters s') \<longleftrightarrow> j \<in> set (waiters ?s) \<and> j \<notin> set nh)"
    by blast
  define tbl where "tbl = AList.update k s' (lock_table lm)"
  define tbl' where "tbl' = (if mode s' = UNLOCKED \<and> length tbl > LOCK_TABLE_SIZE_LIMIT
                        then AList.delete k tbl else tbl)"
  define f where "f = fold notify_holder nh (num_locks_waited lm, ready)"
  have res: "lm' = lm\<lparr>lock_table := tbl', num_locks_waited := fst f\<rparr>" "ready' = snd f"
    using ok True r by (auto simp: release_key_def Let_def tbl_def tbl'_def f_def split_beta)
  have tk: "table_at tbl' k = s'"
  proof (cases "mode s' = UNLOCKED \<and> length tbl > LOCK_TABLE_SIZE_LIMIT")
    case True
    then have "s' = empty_LockState" using es' entry_inv_UNLOCKED by blast
    moreover have "tbl' = AList.delete k tbl" unfolding tbl'_def using True by (rule if_P)
    ultimately show ?thesis by (simp add: table_at_delete)
  next
    case False
    then have "tbl' = tbl" unfolding tbl'_def by (rule if_not_P)
    then show ?thesis by (simp add: tbl_def table_at_update)
  qed
  have to: "table_at tbl' k' = table_at (lock_table lm) k'" if "k' \<noteq> k" for k'
  proof -
    have "table_at tbl k' = table_at (lock_table lm) k'"
      using that by (simp add: tbl_def table_at_update)
    moreover have "table_at (AList.delete k tbl) k' = table_at tbl k'"
      using that by (simp add: table_at_delete)
    ultimately show ?thesis by (cases "mode s' = UNLOCKED \<and> length tbl > LOCK_TABLE_SIZE_LIMIT")
      (simp_all add: tbl'_def del: de_Morgan_conj)
  qed
  have i': "lm_inv lm'"
    unfolding lm_inv_def
  proof
    fix k' show "entry_inv (table_at (lock_table lm') k')"
      using es' inv tk to by (cases "k' = k") (simp_all add: lm_inv_def res)
  qed
  have pr: "(i \<in> set (holders s') \<and> i \<notin> set (holders ?s)) \<longleftrightarrow> i \<in> set nh"
    using hs nhs iu by blast
  note F = fold_notify_holder [OF dn, of "num_locks_waited lm" ready i, folded f_def]
  have c: "count_at (fst f) i = count_at (num_locks_waited lm) i - (if i \<in> set nh then 1 else 0)"
    using F by blast
  have rd: "i \<in> set (snd f) \<longleftrightarrow> i \<in> set ready
      \<or> (i \<in> set nh \<and> count_at (num_locks_waited lm) i - 1 = 0)"
    using F by blast
  have t1: "table_at (lock_table lm') k = s'" by (simp add: res tk)
  have t2: "\<forall>k'. k' \<noteq> k \<longrightarrow> table_at (lock_table lm') k' = table_at (lock_table lm) k'"
    by (simp add: res to)
  have w: "i \<in> set (waiters s') \<longrightarrow> i \<in> set (waiters ?s)" using ws iu by blast
  have h: "i \<in> set (holders ?s) \<longrightarrow> i \<in> set (holders s')" using hs iu by blast
  have pw: "i \<in> set (holders s') \<and> i \<notin> set (holders ?s) \<longrightarrow> i \<in> set (waiters ?s)"
    using pr nhs iu by blast
  have c': "count_at (num_locks_waited lm') i = count_at (num_locks_waited lm) i
         - (if i \<in> set (holders s') \<and> i \<notin> set (holders ?s) then 1 else 0)"
    using c pr by (simp add: res)
  have rd': "i \<in> set ready' \<longleftrightarrow> i \<in> set ready
         \<or> (i \<in> set (holders s') \<and> i \<notin> set (holders ?s)
             \<and> count_at (num_locks_waited lm') i = 0)"
    using rd c pr by (auto simp: res)
  show ?thesis
    unfolding t1 using i' t2 w h pw c' rd' by blast
qed

lemma release_key_step:
  assumes inv: "txn_inv i keys reg acq lm" and d: "distinct keys"
    and ok: "release_key loc u (k, m) (lm, ready) = Inr (lm', ready')" and iu: "i \<noteq> u"
    and z: "reg \<and> acq \<longrightarrow> (count_at (num_locks_waited lm) i = 0 \<longleftrightarrow> z \<or> i \<in> set ready)"
  shows "txn_inv i keys reg acq lm'
    \<and> (reg \<and> acq \<longrightarrow> (count_at (num_locks_waited lm') i = 0 \<longleftrightarrow> z \<or> i \<in> set ready'))"
proof -
  let ?e = "table_at (lock_table lm) k" and ?e' = "table_at (lock_table lm') k"
  have li: "lm_inv lm" using inv by (simp add: txn_inv_def)
  note R = release_key_result [OF li ok iu]
  have i': "lm_inv lm'" using R by blast
  have oth: "table_at (lock_table lm') k' = table_at (lock_table lm) k'" if "k' \<noteq> k" for k'
    using R that by blast
  have q: "IsQueued i (table_at (lock_table lm') k') \<longrightarrow> IsQueued i (table_at (lock_table lm) k')"
    for k'
    using R oth by (cases "k' = k") (auto simp: IsQueued_def)
  have qk: "\<forall>k. IsQueued i (table_at (lock_table lm') k) \<longrightarrow> acq \<and> k \<in> set keys"
    using q inv by (auto simp: txn_inv_def)
  have c0: "count_at (num_locks_waited lm) i
      = (if reg then int (length keys) else 0) - int (held i keys lm)"
    using inv by (simp add: txn_inv_def)
  show ?thesis
  proof (cases "i \<in> set (holders ?e') \<and> i \<notin> set (holders ?e)")
    case True
    then have "i \<in> set (waiters ?e)" using R by blast
    then have kk: "k \<in> set keys" and acq: acq using inv by (auto simp: txn_inv_def IsQueued_def)
    have h1: "held i keys lm' = Suc (held i keys lm)"
      using d kk True oth by (intro held_Suc [where k = k]) simp_all
    have c1: "count_at (num_locks_waited lm') i = count_at (num_locks_waited lm) i - 1"
      using R True by simp
    have lt: "held i keys lm < length keys" using kk True by (intro held_less [where k = k]) simp_all
    have inv': "txn_inv i keys reg acq lm'"
      using i' qk c0 c1 h1 by (simp add: txn_inv_def)
    have rd: "i \<in> set ready' \<longleftrightarrow> i \<in> set ready \<or> count_at (num_locks_waited lm') i = 0"
      using R True by blast
    show ?thesis
    proof (cases "reg \<and> acq")
      case False
      then show ?thesis using inv' by blast
    next
      case ra: True
      then have "count_at (num_locks_waited lm) i > 0" using c0 lt by simp
      then have "\<not> z \<and> i \<notin> set ready" using z ra by auto
      then show ?thesis using inv' rd by simp
    qed
  next
    case False
    have same: "(i \<in> set (holders (table_at (lock_table lm') k')))
              = (i \<in> set (holders (table_at (lock_table lm) k')))" for k'
      using False R oth by (cases "k' = k") auto
    have c1: "count_at (num_locks_waited lm') i = count_at (num_locks_waited lm) i"
      using R False by simp
    have rd: "i \<in> set ready' \<longleftrightarrow> i \<in> set ready" using R False by blast
    have "txn_inv i keys reg acq lm'"
      using i' q same c1 by (intro txn_inv_transfer [OF inv]) simp_all
    then show ?thesis using z c1 rd by simp
  qed
qed

lemma release_keys_other:
  assumes "txn_inv i keys reg acq lm" and "distinct keys"
    and "release_keys loc u ps (lm, ready) = Inr (lm', ready')" and "i \<noteq> u"
    and "reg \<and> acq \<longrightarrow> (count_at (num_locks_waited lm) i = 0 \<longleftrightarrow> z \<or> i \<in> set ready)"
  shows "txn_inv i keys reg acq lm'
    \<and> (reg \<and> acq \<longrightarrow> (count_at (num_locks_waited lm') i = 0 \<longleftrightarrow> z \<or> i \<in> set ready'))"
  using assms
proof (induction ps arbitrary: lm ready)
  case Nil
  then show ?case by simp
next
  case (Cons p ps)
  obtain lm1 ready1 where a: "release_key loc u p (lm, ready) = Inr (lm1, ready1)"
    and rest: "release_keys loc u ps (lm1, ready1) = Inr (lm', ready')"
    using Cons.prems(3) by (cases "release_key loc u p (lm, ready)") auto
  obtain k m where p: "p = (k, m)" by (cases p)
  note S = release_key_step [OF Cons.prems(1,2) a [unfolded p] Cons.prems(4,5)]
  show ?case
    using S rest Cons.prems(2,4) by (intro Cons.IH [where lm = lm1 and ready = ready1]) blast+
qed

lemma ReleaseLocks_other:
  assumes inv: "txn_inv i keys reg acq lm" and d: "distinct keys"
    and r: "ReleaseLocks loc u lm = Inr (ready, lm')" and iu: "internal_id u \<noteq> i"
  shows "txn_inv i keys reg acq lm'
    \<and> (reg \<and> acq \<longrightarrow> (count_at (num_locks_waited lm') i = 0
          \<longleftrightarrow> count_at (num_locks_waited lm) i = 0 \<or> i \<in> set ready))"
proof -
  obtain lm1 where a: "release_keys loc (internal_id u) (ExtractKeys loc u) (lm, []) = Inr (lm1, ready)"
    and lm': "lm' = lm1\<lparr>num_locks_waited := (num_locks_waited lm1)(internal_id u := None)\<rparr>"
    using r
    by (cases "release_keys loc (internal_id u) (ExtractKeys loc u) (lm, [])")
       (auto simp: ReleaseLocks_def Let_def)
  have z: "reg \<and> acq \<longrightarrow> (count_at (num_locks_waited lm) i = 0
      \<longleftrightarrow> count_at (num_locks_waited lm) i = 0 \<or> i \<in> set [])" by simp
  have iu': "i \<noteq> internal_id u" using iu by simp
  note R = release_keys_other [OF inv d a iu' z]
  have i1: "txn_inv i keys reg acq lm1" using R by blast
  have c: "count_at (num_locks_waited lm') i = count_at (num_locks_waited lm1) i"
    using iu by (simp add: lm')
  have t: "lock_table lm' = lock_table lm1" by (simp add: lm')
  have "lm_inv lm'" using i1 t by (simp add: txn_inv_def lm_inv_def)
  then have "txn_inv i keys reg acq lm'"
    using t c by (intro txn_inv_transfer [OF i1]) simp_all
  then show ?thesis using R c by simp
qed

lemma lm_run_append_Inr:
  assumes "lm_run loc (xs @ ys) lm = Inr (rets, lm')"
  shows "\<exists>rs1 lm1 rs2. lm_run loc xs lm = Inr (rs1, lm1) \<and> lm_run loc ys lm1 = Inr (rs2, lm')
           \<and> rets = rs1 @ rs2"
  using assms
proof (induction xs arbitrary: lm rets)
  case Nil
  then show ?case by simp
next
  case (Cons c xs)
  obtain r lm0 where s: "lm_step loc c lm = Inr (r, lm0)"
    using Cons.prems by (cases "lm_step loc c lm") auto
  obtain rs where rest: "lm_run loc (xs @ ys) lm0 = Inr (rs, lm')" and rets: "rets = r # rs"
    using Cons.prems s by (cases "lm_run loc (xs @ ys) lm0") auto
  from Cons.IH [OF rest] obtain rs1 lm1 rs2 where "lm_run loc xs lm0 = Inr (rs1, lm1)"
    "lm_run loc ys lm1 = Inr (rs2, lm')" "rs = rs1 @ rs2" by blast
  then show ?case using s rets by simp
qed

lemma lm_run_Cons_Inr:
  assumes "lm_run loc (c # cs) lm = Inr (rets, lm')"
  shows "\<exists>r lm1 rs. lm_step loc c lm = Inr (r, lm1) \<and> lm_run loc cs lm1 = Inr (rs, lm')
           \<and> rets = r # rs"
proof -
  obtain r lm0 where s: "lm_step loc c lm = Inr (r, lm0)"
    using assms by (cases "lm_step loc c lm") auto
  obtain rs where "lm_run loc cs lm0 = Inr (rs, lm')" "rets = r # rs"
    using assms s by (cases "lm_run loc cs lm0") auto
  then show ?thesis using s by simp
qed

lemma lm_run_length: "lm_run loc cs lm = Inr (rs, lm') \<Longrightarrow> length rs = length cs"
proof (induction cs arbitrary: lm rs)
  case Nil
  then show ?case by simp
next
  case (Cons c cs)
  from lm_run_Cons_Inr [OF Cons.prems] obtain r lm1 rs' where
    "lm_run loc cs lm1 = Inr (rs', lm')" "rs = r # rs'" by blast
  then show ?case using Cons.IH by auto
qed

lemma acquire_key_count_other:
  assumes "acquire_key u p lm = Inr lm'" and "u \<noteq> i"
  shows "count_at (num_locks_waited lm') i = count_at (num_locks_waited lm) i"
  using assms by (auto simp: acquire_key_def Let_def split: if_splits prod.splits)

lemma acquire_keys_count_other:
  assumes "acquire_keys u ps lm = Inr lm'" and "u \<noteq> i"
  shows "count_at (num_locks_waited lm') i = count_at (num_locks_waited lm) i"
  using assms
proof (induction ps arbitrary: lm)
  case Nil
  then show ?case by simp
next
  case (Cons p ps)
  obtain lm1 where a: "acquire_key u p lm = Inr lm1" and rest: "acquire_keys u ps lm1 = Inr lm'"
    using Cons.prems(1) by (cases "acquire_key u p lm") auto
  show ?case using Cons.IH [OF rest Cons.prems(2)] acquire_key_count_other [OF a Cons.prems(2)]
    by simp
qed

lemma lm_step_other:
  assumes inv: "txn_inv i keys reg acq lm" and d: "distinct keys"
    and s: "lm_step loc c lm = Inr (r, lm')" and o: "internal_id (call_txn c) \<noteq> i"
  shows "txn_inv i keys reg acq lm'
    \<and> (reg \<and> acq \<longrightarrow> (count_at (num_locks_waited lm') i = 0
          \<longleftrightarrow> count_at (num_locks_waited lm) i = 0
              \<or> (\<exists>ready. r = Ready ready \<and> i \<in> set ready)))"
proof (cases c)
  case (CallRegisterTxn u)
  obtain b where b: "RegisterTxn loc u lm = (b, lm')" and r: "r = Returned b"
    using s CallRegisterTxn by (cases "RegisterTxn loc u lm") auto
  have u: "internal_id u \<noteq> i" using o CallRegisterTxn by simp
  have "txn_inv i keys reg acq lm'" using RegisterTxn_other [OF inv b u] .
  moreover have "count_at (num_locks_waited lm') i = count_at (num_locks_waited lm) i"
    using b u by (auto simp: RegisterTxn_def Let_def split: if_splits)
  ultimately show ?thesis using r by simp
next
  case (CallAcquireLocks u)
  obtain b where b: "AcquireLocks loc u lm = Inr (b, lm')" and r: "r = Returned b"
    using s CallAcquireLocks by (cases "AcquireLocks loc u lm") auto
  have u: "internal_id u \<noteq> i" using o CallAcquireLocks by simp
  have i': "txn_inv i keys reg acq lm'" using AcquireLocks_other [OF inv b u] .
  have q: "\<forall>k. (i \<in> set (holders (table_at (lock_table lm) k))) \<longrightarrow> k \<in> set keys"
    using inv by (auto simp: txn_inv_def IsQueued_def)
  have "count_at (num_locks_waited lm') i = count_at (num_locks_waited lm) i"
  proof (cases "ExtractKeys loc u = []")
    case True
    then show ?thesis using b by (simp add: AcquireLocks_def)
  next
    case False
    obtain lm1 where a: "acquire_keys (internal_id u) (ExtractKeys loc u) lm = Inr lm1"
      using b False
      by (cases "acquire_keys (internal_id u) (ExtractKeys loc u) lm")
         (auto simp: AcquireLocks_def Let_def)
    have c1: "count_at (num_locks_waited lm') i = count_at (num_locks_waited lm1) i"
      using b u False a by (auto simp: AcquireLocks_def Let_def split: if_splits)
    have "count_at (num_locks_waited lm1) i = count_at (num_locks_waited lm) i"
      using acquire_keys_count_other [OF a u] .
    then show ?thesis using c1 by simp
  qed
  then show ?thesis using i' r by simp
next
  case (CallReleaseLocks u)
  obtain ready where b: "ReleaseLocks loc u lm = Inr (ready, lm')" and r: "r = Ready ready"
    using s CallReleaseLocks by (cases "ReleaseLocks loc u lm") auto
  have u: "internal_id u \<noteq> i" using o CallReleaseLocks by simp
  show ?thesis using ReleaseLocks_other [OF inv d b u] r by simp
qed

lemma lm_run_others:
  assumes "txn_inv i keys reg acq lm" and "distinct keys"
    and "lm_run loc cs lm = Inr (rs, lm')"
    and "\<forall>c \<in> set cs. internal_id (call_txn c) \<noteq> i"
  shows "txn_inv i keys reg acq lm'
    \<and> (reg \<and> acq \<longrightarrow> (count_at (num_locks_waited lm') i = 0
          \<longleftrightarrow> count_at (num_locks_waited lm) i = 0
              \<or> (\<exists>r \<in> set rs. \<exists>ready. r = Ready ready \<and> i \<in> set ready)))"
  using assms
proof (induction cs arbitrary: lm rs)
  case Nil
  then show ?case by simp
next
  case (Cons c cs)
  from lm_run_Cons_Inr [OF Cons.prems(3)] obtain r lm1 rs' where
    s: "lm_step loc c lm = Inr (r, lm1)" and rest: "lm_run loc cs lm1 = Inr (rs', lm')"
    and rs: "rs = r # rs'" by blast
  have o: "internal_id (call_txn c) \<noteq> i" using Cons.prems(4) by simp
  have os: "\<forall>c \<in> set cs. internal_id (call_txn c) \<noteq> i" using Cons.prems(4) by simp
  note A = lm_step_other [OF Cons.prems(1) Cons.prems(2) s o]
  have i1: "txn_inv i keys reg acq lm1" using A by blast
  note B = Cons.IH [OF i1 Cons.prems(2) rest os]
  show ?case
  proof (intro conjI impI)
    show "txn_inv i keys reg acq lm'" using B by blast
  next
    assume ra: "reg \<and> acq"
    have a: "count_at (num_locks_waited lm1) i = 0
          \<longleftrightarrow> count_at (num_locks_waited lm) i = 0
              \<or> (\<exists>ready. r = Ready ready \<and> i \<in> set ready)" using A ra by blast
    have b: "count_at (num_locks_waited lm') i = 0
          \<longleftrightarrow> count_at (num_locks_waited lm1) i = 0
              \<or> (\<exists>r \<in> set rs'. \<exists>ready. r = Ready ready \<and> i \<in> set ready)" using B ra by blast
    show "count_at (num_locks_waited lm') i = 0
          \<longleftrightarrow> count_at (num_locks_waited lm) i = 0
              \<or> (\<exists>r \<in> set rs. \<exists>ready. r = Ready ready \<and> i \<in> set ready)"
      unfolding b a rs by auto
  qed
qed

lemma txn_inv_new: "txn_inv i keys False False new_DeterministicLockManager"
proof -
  have t: "table_at (lock_table new_DeterministicLockManager) k = empty_LockState" for k
    by (simp add: new_DeterministicLockManager_def table_at_def)
  have q: "\<not> IsQueued i empty_LockState" by (simp add: IsQueued_def empty_LockState_def)
  have h: "held i keys new_DeterministicLockManager = 0"
    unfolding held_def t by (simp add: empty_LockState_def)
  have c: "count_at (num_locks_waited new_DeterministicLockManager) i = 0"
    by (simp add: new_DeterministicLockManager_def count_at_def)
  show ?thesis unfolding txn_inv_def lm_inv_def t h c using q entry_inv_empty by simp
qed

lemma lm_step_own:
  assumes inv: "txn_inv i keys reg acq lm"
    and c: "(c = CallRegisterTxn t \<and> \<not> reg \<and> reg' \<and> acq' = acq)
          \<or> (c = CallAcquireLocks t \<and> \<not> acq \<and> acq' \<and> reg' = reg)"
    and s: "lm_step loc c lm = Inr (r, lm')"
    and i: "internal_id t = i" and k: "keys = map fst (ExtractKeys loc t)" and ne: "keys \<noteq> []"
    and d: "distinct keys"
  shows "txn_inv i keys reg' acq' lm'
      \<and> (r = Returned True \<longleftrightarrow> count_at (num_locks_waited lm') i = 0)"
  using c
proof (elim disjE conjE)
  assume c: "c = CallRegisterTxn t" and f: "\<not> reg" "reg'" "acq' = acq"
  obtain b where b: "RegisterTxn loc t lm = (b, lm')" and r: "r = Returned b"
    using s c by (cases "RegisterTxn loc t lm") auto
  have inv': "txn_inv i keys False acq lm" using inv f by simp
  show ?thesis using RegisterTxn_own [OF inv' b i k ne] r f by simp
next
  assume c: "c = CallAcquireLocks t" and f: "\<not> acq" "acq'" "reg' = reg"
  obtain b where b: "AcquireLocks loc t lm = Inr (b, lm')" and r: "r = Returned b"
    using s c by (cases "AcquireLocks loc t lm") auto
  have inv': "txn_inv i keys reg False lm" using inv f by simp
  show ?thesis using AcquireLocks_own [OF inv' b i k ne d] r f by simp
qed

text \<open>The count of a transaction at the end of a run that returns.\<close>

lemma outstanding_count_of_run:
  assumes keys: "ExtractKeys loc t \<noteq> []"
    and dr: "distinct (map fst (read_set t))" and dw: "distinct (map fst (write_set t))"
    and others: "\<forall>c \<in> set (pre @ mid @ post). internal_id (call_txn c) \<noteq> internal_id t"
    and calls: "(c1 = CallRegisterTxn t \<and> c2 = CallAcquireLocks t)
              \<or> (c1 = CallAcquireLocks t \<and> c2 = CallRegisterTxn t)"
    and run: "lm_run loc (pre @ [c1] @ mid @ [c2] @ post) new_DeterministicLockManager
                = Inr (rets, lm)"
  shows "count_at (num_locks_waited lm) (internal_id t) = 0 \<longleftrightarrow>
           (rets ! (length pre + 1 + length mid) = Returned True
            \<or> (\<exists>r \<in> set (drop (length pre + length mid + 2) rets).
                  \<exists>ready. r = Ready ready \<and> internal_id t \<in> set ready))"
proof -
  define i where "i = internal_id t"
  define ks where "ks = map fst (ExtractKeys loc t)"
  have ne: "ks \<noteq> []" using keys by (simp add: ks_def)
  have d: "distinct ks" unfolding ks_def using distinct_ExtractKeys [OF dr dw] .
  have it: "internal_id t = i" by (simp add: i_def)
  have o1: "\<forall>c \<in> set pre. internal_id (call_txn c) \<noteq> i"
    and o2: "\<forall>c \<in> set mid. internal_id (call_txn c) \<noteq> i"
    and o3: "\<forall>c \<in> set post. internal_id (call_txn c) \<noteq> i"
    using others by (auto simp: i_def)
  from lm_run_append_Inr [OF run] obtain rs1 lm1 rest1 where
    r1: "lm_run loc pre new_DeterministicLockManager = Inr (rs1, lm1)"
    and run1: "lm_run loc ([c1] @ mid @ [c2] @ post) lm1 = Inr (rest1, lm)"
    and e1: "rets = rs1 @ rest1" by blast
  from lm_run_Cons_Inr [OF run1 [unfolded append_Cons append_Nil]] obtain ra lmA rest2 where
    sA: "lm_step loc c1 lm1 = Inr (ra, lmA)"
    and run2: "lm_run loc (mid @ c2 # post) lmA = Inr (rest2, lm)"
    and e2: "rest1 = ra # rest2" by blast
  from lm_run_append_Inr [OF run2] obtain rs2 lm2 rest3 where
    r2: "lm_run loc mid lmA = Inr (rs2, lm2)"
    and run3: "lm_run loc (c2 # post) lm2 = Inr (rest3, lm)"
    and e3: "rest2 = rs2 @ rest3" by blast
  from lm_run_Cons_Inr [OF run3] obtain rb lmB rs3 where
    sB: "lm_step loc c2 lm2 = Inr (rb, lmB)"
    and r3: "lm_run loc post lmB = Inr (rs3, lm)"
    and e4: "rest3 = rb # rs3" by blast
  have rets: "rets = rs1 @ ra # rs2 @ rb # rs3" using e1 e2 e3 e4 by simp
  have l1: "length rs1 = length pre" using lm_run_length [OF r1] .
  have l2: "length rs2 = length mid" using lm_run_length [OF r2] .
  have nth: "rets ! (length pre + 1 + length mid) = rb"
    unfolding rets using l1 l2 by (simp add: nth_append)
  have drp: "drop (length pre + length mid + 2) rets = rs3"
    unfolding rets using l1 l2 by simp
  define reg1 where "reg1 = (c1 = CallRegisterTxn t)"
  define acq1 where "acq1 = (c1 = CallAcquireLocks t)"
  have i0: "txn_inv i ks False False lm1"
    using lm_run_others [OF txn_inv_new d r1 o1] by blast
  have cA: "(c1 = CallRegisterTxn t \<and> \<not> False \<and> reg1 \<and> acq1 = False)
          \<or> (c1 = CallAcquireLocks t \<and> \<not> False \<and> acq1 \<and> reg1 = False)"
    using calls by (auto simp: reg1_def acq1_def)
  have iA: "txn_inv i ks reg1 acq1 lmA"
    using lm_step_own [OF i0 cA sA it ks_def ne d] by blast
  have i2: "txn_inv i ks reg1 acq1 lm2"
    using lm_run_others [OF iA d r2 o2] by blast
  have cB: "(c2 = CallRegisterTxn t \<and> \<not> reg1 \<and> True \<and> True = acq1)
          \<or> (c2 = CallAcquireLocks t \<and> \<not> acq1 \<and> True \<and> True = reg1)"
    using calls by (auto simp: reg1_def acq1_def)
  note B = lm_step_own [OF i2 cB sB it ks_def ne d]
  have iB: "txn_inv i ks True True lmB" using B by blast
  have rbz: "rb = Returned True \<longleftrightarrow> count_at (num_locks_waited lmB) i = 0" using B by blast
  have fin: "count_at (num_locks_waited lm) i = 0
          \<longleftrightarrow> count_at (num_locks_waited lmB) i = 0
              \<or> (\<exists>r \<in> set rs3. \<exists>ready. r = Ready ready \<and> i \<in> set ready)"
    using lm_run_others [OF iB d r3 o3] by blast
  show ?thesis unfolding nth drp rbz using fin by (simp add: i_def)
qed

text \<open>
  No call dies on a lock manager that satisfies the invariant: \<open>ExtractKeys\<close> gives no
  invalid lock mode, and \<open>Release\<close> takes the front of a queue that is not empty.
\<close>

lemma RegisterTxn_lm_inv: "lm_inv lm \<Longrightarrow> lm_inv (snd (RegisterTxn loc t lm))"
  by (simp add: RegisterTxn_def Let_def lm_inv_def)

lemma acquire_key_returns:
  assumes "m \<noteq> UNLOCKED"
  shows "\<exists>lm'. acquire_key u (k, m) lm = Inr lm'"
  using assms by (simp add: acquire_key_def Let_def split: prod.splits)

lemma acquire_keys_returns:
  assumes "lm_inv lm" and "\<forall>p \<in> set ps. snd p \<noteq> UNLOCKED"
  shows "\<exists>lm'. acquire_keys u ps lm = Inr lm' \<and> lm_inv lm'"
  using assms
proof (induction ps arbitrary: lm)
  case Nil
  then show ?case by simp
next
  case (Cons p ps)
  obtain k m where p: "p = (k, m)" by (cases p)
  have m: "m \<noteq> UNLOCKED" using Cons.prems(2) p by simp
  obtain lm1 where a: "acquire_key u (k, m) lm = Inr lm1" using acquire_key_returns [OF m] by blast
  have i1: "lm_inv lm1" using acquire_key_result [OF Cons.prems(1) a] by blast
  have r: "\<forall>p \<in> set ps. snd p \<noteq> UNLOCKED" using Cons.prems(2) by simp
  from Cons.IH [OF i1 r] obtain lm' where "acquire_keys u ps lm1 = Inr lm'" "lm_inv lm'" by blast
  then show ?case using a p by simp
qed

lemma AcquireLocks_returns:
  assumes "lm_inv lm"
  shows "\<exists>b lm'. AcquireLocks loc t lm = Inr (b, lm') \<and> lm_inv lm'"
proof (cases "ExtractKeys loc t = []")
  case True
  then show ?thesis using assms
    by (intro exI [of _ False] exI [of _ lm]) (simp add: AcquireLocks_def)
next
  case False
  have "\<forall>p \<in> set (ExtractKeys loc t). snd p \<noteq> UNLOCKED" using ExtractKeys_modes by blast
  from acquire_keys_returns [OF assms this] obtain lm1 where
    a: "acquire_keys (internal_id t) (ExtractKeys loc t) lm = Inr lm1" and i1: "lm_inv lm1"
    by blast
  show ?thesis
  proof (cases "count_at (num_locks_waited lm1) (internal_id t) = 0")
    case True
    then show ?thesis using False a i1
      by (intro exI [of _ True]) (simp add: AcquireLocks_def Let_def lm_inv_def)
  next
    case z: False
    then show ?thesis using False a i1
      by (intro exI [of _ False]) (simp add: AcquireLocks_def Let_def lm_inv_def)
  qed
qed

lemma release_key_returns:
  assumes inv: "lm_inv lm"
  shows "\<exists>lm' ready'. release_key loc u (k, m) (lm, ready) = Inr (lm', ready') \<and> lm_inv lm'"
proof -
  have e: "entry_inv (table_at (lock_table lm) k)" using inv by (simp add: lm_inv_def)
  from Release_result [OF e] obtain nh s' where
    r: "Release u (table_at (lock_table lm) k) = Some (nh, s')" by blast
  have "\<exists>acc'. release_key loc u (k, m) (lm, ready) = Inr acc'"
  proof (cases "loc k")
    case False
    then show ?thesis by (simp add: release_key_def)
  next
    case True
    obtain cnt rt where f: "fold notify_holder nh (num_locks_waited lm, ready) = (cnt, rt)"
      by (cases "fold notify_holder nh (num_locks_waited lm, ready)")
    show ?thesis using True r f by (simp add: release_key_def Let_def)
  qed
  then obtain acc' where a: "release_key loc u (k, m) (lm, ready) = Inr acc'" by blast
  obtain lm' ready' where acc: "acc' = (lm', ready')" by (cases acc')
  have "Suc u \<noteq> u" by simp
  from release_key_result [OF inv a [unfolded acc] this] have "lm_inv lm'" by blast
  then show ?thesis using a acc by blast
qed

lemma release_keys_returns:
  assumes "lm_inv lm"
  shows "\<exists>lm' ready'. release_keys loc u ps (lm, ready) = Inr (lm', ready') \<and> lm_inv lm'"
  using assms
proof (induction ps arbitrary: lm ready)
  case Nil
  then show ?case by simp
next
  case (Cons p ps)
  obtain k m where p: "p = (k, m)" by (cases p)
  from release_key_returns [OF Cons.prems] obtain lm1 ready1 where
    a: "release_key loc u (k, m) (lm, ready) = Inr (lm1, ready1)" and i1: "lm_inv lm1" by blast
  from Cons.IH [OF i1] obtain lm' ready' where
    "release_keys loc u ps (lm1, ready1) = Inr (lm', ready')" "lm_inv lm'" by blast
  then show ?case using a p by simp
qed

lemma ReleaseLocks_returns:
  assumes "lm_inv lm"
  shows "\<exists>ready lm'. ReleaseLocks loc t lm = Inr (ready, lm') \<and> lm_inv lm'"
proof -
  from release_keys_returns [OF assms] obtain lm1 ready1 where
    a: "release_keys loc (internal_id t) (ExtractKeys loc t) (lm, []) = Inr (lm1, ready1)"
    and i1: "lm_inv lm1" by blast
  show ?thesis using a i1 by (simp add: ReleaseLocks_def Let_def lm_inv_def)
qed

lemma lm_step_returns:
  assumes "lm_inv lm"
  shows "\<exists>r lm'. lm_step loc c lm = Inr (r, lm') \<and> lm_inv lm'"
proof (cases c)
  case (CallRegisterTxn t)
  show ?thesis using RegisterTxn_lm_inv [OF assms, of loc t] CallRegisterTxn
    by (cases "RegisterTxn loc t lm") simp
next
  case (CallAcquireLocks t)
  from AcquireLocks_returns [OF assms] obtain b lm' where
    "AcquireLocks loc t lm = Inr (b, lm')" "lm_inv lm'" by blast
  then show ?thesis using CallAcquireLocks by simp
next
  case (CallReleaseLocks t)
  from ReleaseLocks_returns [OF assms] obtain ready lm' where
    "ReleaseLocks loc t lm = Inr (ready, lm')" "lm_inv lm'" by blast
  then show ?thesis using CallReleaseLocks by simp
qed

lemma lm_run_returns:
  assumes "lm_inv lm"
  shows "\<exists>rs lm'. lm_run loc cs lm = Inr (rs, lm') \<and> lm_inv lm'"
  using assms
proof (induction cs arbitrary: lm)
  case Nil
  then show ?case by simp
next
  case (Cons c cs)
  from lm_step_returns [OF Cons.prems] obtain r lm1 where
    s: "lm_step loc c lm = Inr (r, lm1)" and i1: "lm_inv lm1" by blast
  from Cons.IH [OF i1] obtain rs lm' where "lm_run loc cs lm1 = Inr (rs, lm')" "lm_inv lm'"
    by blast
  then show ?case using s by simp
qed

lemma lm_inv_new: "lm_inv new_DeterministicLockManager"
  using txn_inv_new [of 0 "[]"] by (simp add: txn_inv_def)

text \<open>
  C6. Let \<open>t\<close> be a transaction with at least one key in the local partition (its read set and
  its write set are maps: no key twice). Take any sequence of calls, from the new lock manager,
  in which \<open>RegisterTxn(t)\<close> and \<open>AcquireLocks(t)\<close> are called once each, in either order, among
  calls for transactions with other ids. The run returns, and at its end the outstanding count
  of \<open>t\<close> (0 when \<open>num_locks_waited\<close> has no entry for \<open>t\<close>) is zero if and only if the later
  of the two calls returned true or a later \<open>ReleaseLocks\<close> returned \<open>t\<close> among the ready
  transactions.
\<close>

theorem C6_count_zero_iff_ready:
  assumes keys: "ExtractKeys loc t \<noteq> []"
    and dr: "distinct (map fst (read_set t))" and dw: "distinct (map fst (write_set t))"
    and others: "\<forall>c \<in> set (pre @ mid @ post). internal_id (call_txn c) \<noteq> internal_id t"
    and calls: "(c1 = CallRegisterTxn t \<and> c2 = CallAcquireLocks t)
              \<or> (c1 = CallAcquireLocks t \<and> c2 = CallRegisterTxn t)"
  shows "\<exists>rets lm.
           lm_run loc (pre @ [c1] @ mid @ [c2] @ post) new_DeterministicLockManager
             = Inr (rets, lm)
           \<and> (count_at (num_locks_waited lm) (internal_id t) = 0 \<longleftrightarrow>
                (rets ! (length pre + 1 + length mid) = Returned True
                 \<or> (\<exists>r \<in> set (drop (length pre + length mid + 2) rets).
                       \<exists>ready. r = Ready ready \<and> internal_id t \<in> set ready)))"
proof -
  from lm_run_returns [OF lm_inv_new] obtain rets lm where
    run: "lm_run loc (pre @ [c1] @ mid @ [c2] @ post) new_DeterministicLockManager
            = Inr (rets, lm)" by blast
  show ?thesis
    using outstanding_count_of_run [OF keys dr dw others calls run] run by blast
qed

text \<open>
  The theorem at the run of the test \<open>PartiallyAcquiredLocks\<close>: transaction 200 waits for the
  WRITE lock on \<open>B\<close> and becomes ready when transaction 100 releases its locks.
\<close>

theorem C6_count_zero_iff_ready_witness:
  "\<exists>lm. lm_run example_loc
           [CallRegisterTxn partial_t1, CallAcquireLocks partial_t1,
            CallRegisterTxn partial_t2, CallAcquireLocks partial_t2,
            CallReleaseLocks partial_t1] new_DeterministicLockManager
         = Inr ([Returned False, Returned True, Returned False, Returned False, Ready [200]], lm)
       \<and> count_at (num_locks_waited lm) (internal_id partial_t2) = 0"
proof -
  define cs where "cs = [CallRegisterTxn partial_t1, CallAcquireLocks partial_t1,
            CallRegisterTxn partial_t2, CallAcquireLocks partial_t2,
            CallReleaseLocks partial_t1]"
  define rets where
    "rets = [Returned False, Returned True, Returned False, Returned False, Ready [200]]"
  have e: "map_sum id fst (lm_run example_loc cs new_DeterministicLockManager) = Inr rets"
    unfolding cs_def rets_def
    by (simp add: partial_t1_def partial_t2_def example_loc_def lm_defs)
  have cs: "[CallRegisterTxn partial_t1, CallAcquireLocks partial_t1]
                 @ [CallRegisterTxn partial_t2] @ [] @ [CallAcquireLocks partial_t2]
                 @ [CallReleaseLocks partial_t1] = cs"
    by (simp add: cs_def)
  have k: "ExtractKeys example_loc partial_t2 \<noteq> []"
    by (simp add: partial_t2_def example_loc_def ExtractKeys_def MakeTransaction_def
        new_Transaction_def contains_def)
  have dr: "distinct (map fst (read_set partial_t2))"
    by (simp add: partial_t2_def MakeTransaction_def new_Transaction_def)
  have dw: "distinct (map fst (write_set partial_t2))"
    by (simp add: partial_t2_def MakeTransaction_def new_Transaction_def)
  have o: "\<forall>c \<in> set ([CallRegisterTxn partial_t1, CallAcquireLocks partial_t1] @ []
                        @ [CallReleaseLocks partial_t1]).
             internal_id (call_txn c) \<noteq> internal_id partial_t2"
    by (simp add: partial_t1_def partial_t2_def MakeTransaction_def new_Transaction_def)
  have c: "(CallRegisterTxn partial_t2 = CallRegisterTxn partial_t2
              \<and> CallAcquireLocks partial_t2 = CallAcquireLocks partial_t2)
         \<or> (CallRegisterTxn partial_t2 = CallAcquireLocks partial_t2
              \<and> CallAcquireLocks partial_t2 = CallRegisterTxn partial_t2)"
    by simp
  from C6_count_zero_iff_ready [OF k dr dw o c, unfolded cs] obtain rets' lm where
    r: "lm_run example_loc cs new_DeterministicLockManager = Inr (rets', lm)"
    and iff: "count_at (num_locks_waited lm) (internal_id partial_t2) = 0 \<longleftrightarrow>
                (rets' ! (length [CallRegisterTxn partial_t1, CallAcquireLocks partial_t1] + 1
                           + length ([] :: lm_call list)) = Returned True
                 \<or> (\<exists>r \<in> set (drop (length [CallRegisterTxn partial_t1,
                                               CallAcquireLocks partial_t1]
                                       + length ([] :: lm_call list) + 2) rets').
                       \<exists>ready. r = Ready ready \<and> internal_id partial_t2 \<in> set ready))"
    by blast
  have rr: "rets' = rets" using e r by simp
  have "count_at (num_locks_waited lm) (internal_id partial_t2) = 0"
    unfolding iff rr
    by (simp add: rets_def partial_t2_def MakeTransaction_def new_Transaction_def)
  then show ?thesis using r unfolding rr cs_def rets_def by blast
qed

text \<open>
  A transaction with no key in the local partition: both calls return false and leave the
  lock manager as it was, whatever its state.
\<close>

lemma no_local_key_calls:
  assumes "ExtractKeys loc t = []"
  shows "RegisterTxn loc t lm = (False, lm) \<and> AcquireLocks loc t lm = Inr (False, lm)"
  using assms by (simp add: RegisterTxn_def AcquireLocks_def)

text \<open>
  C6 as stated fails for a transaction with no key in the local partition: both calls return
  false and leave the lock manager as it was, so the outstanding count is zero although the
  transaction was not, and will never be, reported ready.
\<close>

theorem C6_counterexample:
  "lm_run example_loc [CallRegisterTxn ghost_txn, CallAcquireLocks ghost_txn]
       new_DeterministicLockManager
     = Inr ([Returned False, Returned False], new_DeterministicLockManager)
   \<and> count_at (num_locks_waited new_DeterministicLockManager) (internal_id ghost_txn) = 0"
  by (simp add: ghost_txn_def example_loc_def lm_defs)


section \<open>Batch and transaction ids\<close>

lemma unat_next_id:
  fixes K m c :: "'a::len word"
  assumes "m < K" and "(unat c + 1) * unat K + unat m < 2 ^ LENGTH('a)"
  shows "unat ((c + 1) * K + m) = (unat c + 1) * unat K + unat m"
proof -
  have K: "0 < unat K" using assms(1) by (metis not_less_zero unat_gt_0 unat_mono word_gt_0 gr_zeroI word_less_nat_alt)
  have "(unat c + 1) * 1 \<le> (unat c + 1) * unat K"
    using K by (intro mult_le_mono2) simp
  then have "unat c + 1 \<le> (unat c + 1) * unat K" by simp
  then have c1: "unat c + 1 < 2 ^ LENGTH('a)" using assms(2) by linarith
  have u1: "unat (c + 1) = unat c + 1"
    using c1 by (simp add: unat_word_ariths)
  have "(unat c + 1) * unat K < 2 ^ LENGTH('a)" using assms(2) by linarith
  then have u2: "unat ((c + 1) * K) = (unat c + 1) * unat K"
    using u1 by (simp add: unat_word_ariths)
  show ?thesis using u2 assms(2) by (simp add: unat_word_ariths)
qed

lemma next_id_mod:
  fixes a b K m1 m2 :: nat
  assumes "a * K + m1 = b * K + m2" "m1 < K" "m2 < K"
  shows "m1 = m2"
proof -
  have "(a * K + m1) mod K = m1" using assms(2) by simp
  moreover have "(b * K + m2) mod K = m2" using assms(3) by simp
  ultimately show ?thesis using assms(1) by simp
qed

text \<open>
  C9. Both functions return \<open>counter \<cdot> kMaxNumMachines + local_machine_id\<close> for the
  incremented counter. For a machine id below \<open>kMaxNumMachines\<close> and without overflow
  (the sum computed for the later counter fits the width of the id type), a call on a later
  counter of the same machine gives a strictly larger id, and ids of two machines with
  different machine ids differ, whatever their counters are.
\<close>

theorem C9_ids:
  fixes K m m' c c' :: "'a::len word"
  shows "NextBatchId K m c = ((c + 1) * K + m, c + 1)
    \<and> NextTxnId K m c = ((c + 1) * K + m, c + 1)
    \<and> (m < K \<and> c < c' \<and> (unat c' + 1) * unat K + unat m < 2 ^ LENGTH('a)
        \<longrightarrow> fst (NextBatchId K m c) < fst (NextBatchId K m c')
          \<and> fst (NextTxnId K m c) < fst (NextTxnId K m c'))
    \<and> (m < K \<and> m' < K \<and> m \<noteq> m'
        \<and> (unat c + 1) * unat K + unat m < 2 ^ LENGTH('a)
        \<and> (unat c' + 1) * unat K + unat m' < 2 ^ LENGTH('a)
        \<longrightarrow> fst (NextBatchId K m c) \<noteq> fst (NextBatchId K m' c')
          \<and> fst (NextTxnId K m c) \<noteq> fst (NextTxnId K m' c'))"
proof -
  have mono: "(c + 1) * K + m < (c' + 1) * K + m"
    if h: "m < K" "c < c'" "(unat c' + 1) * unat K + unat m < 2 ^ LENGTH('a)"
  proof -
    have cc: "unat c < unat c'" using h(2) by (simp add: word_less_nat_alt)
    then have "(unat c + 1) * unat K \<le> (unat c' + 1) * unat K" by simp
    then have "(unat c + 1) * unat K + unat m < 2 ^ LENGTH('a)" using h(3) by linarith
    then have a: "unat ((c + 1) * K + m) = (unat c + 1) * unat K + unat m"
      using h(1) by (rule unat_next_id [rotated])
    have b: "unat ((c' + 1) * K + m) = (unat c' + 1) * unat K + unat m"
      using h(1) h(3) by (rule unat_next_id)
    have K: "0 < unat K" using h(1) by (metis not_less_zero unat_gt_0 unat_mono word_gt_0 gr_zeroI word_less_nat_alt)
    have "(unat c + 1) * unat K < (unat c' + 1) * unat K" using cc K by simp
    then show ?thesis using a b by (simp add: word_less_nat_alt)
  qed
  have dist: "(c + 1) * K + m \<noteq> (c' + 1) * K + m'"
    if h: "m < K" "m' < K" "m \<noteq> m'" "(unat c + 1) * unat K + unat m < 2 ^ LENGTH('a)"
      "(unat c' + 1) * unat K + unat m' < 2 ^ LENGTH('a)"
  proof
    assume eq: "(c + 1) * K + m = (c' + 1) * K + m'"
    have a: "unat ((c + 1) * K + m) = (unat c + 1) * unat K + unat m"
      using h(1) h(4) by (rule unat_next_id)
    have b: "unat ((c' + 1) * K + m') = (unat c' + 1) * unat K + unat m'"
      using h(2) h(5) by (rule unat_next_id)
    have "(unat c + 1) * unat K + unat m = (unat c' + 1) * unat K + unat m'"
      using a b eq by simp
    then have "unat m = unat m'"
      using h(1) h(2) by (intro next_id_mod [of "unat c + 1" "unat K" "unat m" "unat c' + 1" "unat m'"]) (simp_all add: word_less_nat_alt)
    then show False using h(3) by (simp add: word_unat_eq_iff)
  qed
  show ?thesis
    using mono dist by (simp add: NextBatchId_def NextTxnId_def Let_def)
qed

theorem C9_ids_witness:
  "(3::32 word) < 1000 \<and> (0::32 word) < 1 \<and> (7::32 word) < 1000 \<and> (3::32 word) \<noteq> 7
   \<and> (unat (0::32 word) + 1) * unat (1000::32 word) + unat (3::32 word) < 2 ^ LENGTH(32)
   \<and> (unat (1::32 word) + 1) * unat (1000::32 word) + unat (3::32 word) < 2 ^ LENGTH(32)
   \<and> (unat (1::32 word) + 1) * unat (1000::32 word) + unat (7::32 word) < 2 ^ LENGTH(32)
   \<and> fst (NextBatchId (1000::32 word) 3 0) < fst (NextBatchId 1000 3 1)
   \<and> fst (NextTxnId (1000::32 word) 3 0) < fst (NextTxnId 1000 3 1)
   \<and> fst (NextBatchId (1000::32 word) 3 0) \<noteq> fst (NextBatchId 1000 7 1)
   \<and> fst (NextTxnId (1000::32 word) 3 0) \<noteq> fst (NextTxnId 1000 7 1)"
proof -
  have h: "(3::32 word) < 1000" "(0::32 word) < 1" "(7::32 word) < 1000" "(3::32 word) \<noteq> 7"
    "(unat (0::32 word) + 1) * unat (1000::32 word) + unat (3::32 word) < 2 ^ LENGTH(32)"
    "(unat (1::32 word) + 1) * unat (1000::32 word) + unat (3::32 word) < 2 ^ LENGTH(32)"
    "(unat (1::32 word) + 1) * unat (1000::32 word) + unat (7::32 word) < 2 ^ LENGTH(32)"
    by simp_all
  show ?thesis
    using h C9_ids [where K = "1000::32 word" and m = 3 and c = 0 and c' = 1 and m' = 7]
    by blast
qed

section \<open>The asynchronous log\<close>

lemma unat_plus_one:
  fixes n :: "'a::len word"
  assumes "n \<noteq> - 1"
  shows "unat (n + 1) = unat n + 1"
proof -
  have "1 + n \<noteq> 0" using assms by (simp add: add_eq_0_iff)
  then show ?thesis using unatSuc [of n] by (simp add: add.commute)
qed

text \<open>
  C10. \<open>Insert\<close> below the cursor leaves the log as it is; at or above the cursor, on an
  occupied position, it throws; so an \<open>Insert\<close> that returns never changes an item that is
  stored. \<open>Next\<close> throws when there is no item at the cursor; otherwise it returns the item,
  removes it and adds one to the cursor (the addition of \<open>uint32_t\<close>: the cursor grows by
  one unless it was \<open>2^32 - 1\<close>).
\<close>

theorem C10_AsyncLog:
  "(position < next_pos l \<longrightarrow> Insert position item l = Inr l)
   \<and> (\<not> position < next_pos l \<and> log_map l position \<noteq> None
        \<longrightarrow> Insert position item l = Inl (PositionTaken position))
   \<and> (Insert position item l = Inr l' \<and> log_map l p = Some x \<longrightarrow> log_map l' p = Some x)
   \<and> (log_map l (next_pos l) = None \<longrightarrow> Next l = Inl NextItemDoesNotExist)
   \<and> (log_map l (next_pos l) = Some x
        \<longrightarrow> Next l = Inr (x, l\<lparr>log_map := (log_map l)(next_pos l := None),
                                 next_pos := next_pos l + 1\<rparr>)
          \<and> (next_pos l \<noteq> - 1 \<longrightarrow> unat (next_pos l + 1) = unat (next_pos l) + 1))"
  by (auto simp: Insert_def Next_def HasNext_def unat_plus_one split: if_splits)

theorem C10_AsyncLog_witness:
  "(3 < next_pos example_log \<and> Insert 3 ''b'' example_log = Inr example_log)
   \<and> (\<not> 5 < next_pos example_log \<and> log_map example_log 5 \<noteq> None
        \<and> Insert 5 ''b'' example_log = Inl (PositionTaken 5))
   \<and> (Insert 6 ''b'' example_log = Inr (example_log\<lparr>log_map := [5 \<mapsto> ''a'', 6 \<mapsto> ''b'']\<rparr>)
        \<and> log_map example_log 5 = Some ''a''
        \<and> log_map (example_log\<lparr>log_map := [5 \<mapsto> ''a'', 6 \<mapsto> ''b'']\<rparr>) 5 = Some ''a'')
   \<and> (log_map (new_AsyncLog 0 :: string AsyncLog) (next_pos (new_AsyncLog 0 :: string AsyncLog)) = None
        \<and> Next (new_AsyncLog 0 :: string AsyncLog) = Inl NextItemDoesNotExist)
   \<and> (log_map example_log (next_pos example_log) = Some ''a'' \<and> next_pos example_log \<noteq> - 1
        \<and> Next example_log
            = Inr (''a'', example_log\<lparr>log_map := (log_map example_log)(next_pos example_log := None),
                                      next_pos := next_pos example_log + 1\<rparr>)
        \<and> unat (next_pos example_log + 1) = unat (next_pos example_log) + 1)"
proof -
  have h1: "3 < next_pos example_log" by (simp add: example_log_def)
  have h2: "\<not> 5 < next_pos example_log" "log_map example_log 5 \<noteq> None"
    by (simp_all add: example_log_def)
  have h3: "Insert 6 ''b'' example_log = Inr (example_log\<lparr>log_map := [5 \<mapsto> ''a'', 6 \<mapsto> ''b'']\<rparr>)"
    "log_map example_log 5 = Some ''a''"
    by (simp_all add: example_log_def Insert_def)
  have h4: "log_map (new_AsyncLog 0 :: string AsyncLog) (next_pos (new_AsyncLog 0 :: string AsyncLog)) = None"
    by (simp add: new_AsyncLog_def)
  have h5: "log_map example_log (next_pos example_log) = Some ''a''" "next_pos example_log \<noteq> - 1"
    by (simp_all add: example_log_def)
  note T1 = C10_AsyncLog [where position = 3 and l = example_log and item = "''b''"]
  note T2 = C10_AsyncLog [where position = 5 and l = example_log and item = "''b''"]
  note T3 = C10_AsyncLog [where position = 6 and l = example_log and item = "''b''" and p = 5
                        and x = "''a''" and l' = "example_log\<lparr>log_map := [5 \<mapsto> ''a'', 6 \<mapsto> ''b'']\<rparr>"]
  note T4 = C10_AsyncLog [where l = "new_AsyncLog 0 :: string AsyncLog"]
  have c1: "Insert 3 ''b'' example_log = Inr example_log" using T1 h1 by blast
  have c2: "Insert 5 ''b'' example_log = Inl (PositionTaken 5)" using T2 h2 by blast
  have c3: "log_map (example_log\<lparr>log_map := [5 \<mapsto> ''a'', 6 \<mapsto> ''b'']\<rparr>) 5 = Some ''a''"
    using T3 h3 by blast
  have c4: "Next (new_AsyncLog 0 :: string AsyncLog) = Inl NextItemDoesNotExist" using T4 h4 by blast
  have c5: "Next example_log
            = Inr (''a'', example_log\<lparr>log_map := (log_map example_log)(next_pos example_log := None),
                                      next_pos := next_pos example_log + 1\<rparr>)
        \<and> unat (next_pos example_log + 1) = unat (next_pos example_log) + 1"
    using T3 h5 by blast
  show ?thesis using h1 h2 h3 h4 h5 c1 c2 c3 c4 c5 by blast
qed

section \<open>TPC-C execution\<close>

lemma Execute_never_commits:
  "Execute env t storage = Inr (t', storage') \<Longrightarrow> status t' = ABORTED"
  by (auto simp: Execute_def Let_def split: if_splits parsed.splits prod.splits)

lemma Execute_after_success:
  assumes "procedures t \<noteq> []" "hd (procedures t) \<noteq> []"
    and "selected_procedure env t = Parsed call"
    and "procedure_Execute env call t = (True, t1)"
  shows "Execute env t storage =
     Inr (t1\<lparr>status := ABORTED, abort_reason := ''Aborted by a TPC-C txn''\<rparr>,
          ApplyWrites env (t1\<lparr>status := COMMITTED\<rparr>) storage)"
  using assms by (simp add: Execute_def)

text \<open>
  C2 (the code at a failing input). A payment transaction with valid arguments whose procedure
  succeeds: \<open>Execute\<close> applies its writes and leaves the status \<open>ABORTED\<close> with the reason
  "Aborted by a TPC-C txn".
\<close>

theorem C2_successful_payment_is_aborted:
  "fst (procedure_Execute tpcc_example_env
         (PaymentTxn 1 1 1 1 1 1 1 1) payment_example) = True
   \<and> Execute tpcc_example_env payment_example [] =
     Inr (payment_example\<lparr>status := ABORTED, abort_reason := ''Aborted by a TPC-C txn''\<rparr>,
          [(''w'', ''v'')])"
  by (simp add: Execute_def selected_procedure_def tpcc_example_env_def payment_example_def
      new_Transaction_def)

section \<open>The sequencer: multi-home batches\<close>

lemma map_of_append_single:
  "map_of (m @ [(k, v)]) k' = (case map_of m k' of Some w \<Rightarrow> Some w | None \<Rightarrow> if k' = k then Some v else None)"
  by (simp add: map_add_def split: option.splits)

lemma map_of_map_insert:
  "map_of (map_insert (k, v) m) k' =
     (case map_of m k' of Some w \<Rightarrow> Some w | None \<Rightarrow> if k' = k then Some v else None)"
proof (cases "contains m k")
  case True
  then have "map_of m k \<noteq> None" by (simp add: contains_def map_of_eq_None_iff)
  then obtain w where "map_of m k = Some w" by blast
  then show ?thesis using True by (auto simp: map_insert_def split: option.splits)
next
  case False
  then show ?thesis by (simp add: map_insert_def map_add_def split: option.splits)
qed

lemma copy_local_keys_result:
  assumes "copy_local_keys r md kvs (s0, m0) = Inr (s, m)"
    and "distinct (map fst kvs)" and "fst ` set kvs \<inter> fst ` set s0 = {}"
  shows "s = s0 @ local_entries r md kvs
       \<and> (\<forall>k. map_of m k = (case map_of m0 k of Some w \<Rightarrow> Some w
            | None \<Rightarrow> if contains (local_entries r md kvs) k then map_of md k else None))"
  using assms
proof (induction kvs arbitrary: s0 m0)
  case Nil
  then show ?case by (simp add: local_entries_def contains_def split: option.splits)
next
  case (Cons kv kvs)
  obtain mm where mm: "map_of md (fst kv) = Some mm"
    using Cons.prems(1) by (cases "map_of md (fst kv)") auto
  show ?case
  proof (cases "master mm = r")
    case True
    have notin: "\<not> contains s0 (fst kv)" using Cons.prems(3) by (auto simp: contains_def)
    then have ins: "map_insert kv s0 = s0 @ [kv]" by (simp add: map_insert_def)
    have rec: "copy_local_keys r md kvs (s0 @ [kv], map_insert (fst kv, mm) m0) = Inr (s, m)"
      using Cons.prems(1) mm True ins by simp
    have disj: "fst ` set kvs \<inter> fst ` set (s0 @ [kv]) = {}"
      using Cons.prems(2,3) by auto
    have d: "distinct (map fst kvs)" using Cons.prems(2) by simp
    note IH = Cons.IH [OF rec d disj]
    have le: "local_entries r md (kv # kvs) = kv # local_entries r md kvs"
      using mm True by (simp add: local_entries_def)
    have k_notin: "\<not> contains (local_entries r md kvs) (fst kv)"
      using Cons.prems(2) by (auto simp: contains_def local_entries_def)
    show ?thesis
    proof (intro conjI allI)
      show "s = s0 @ local_entries r md (kv # kvs)" using IH le by simp
    next
      fix k
      show "map_of m k = (case map_of m0 k of Some w \<Rightarrow> Some w
            | None \<Rightarrow> if contains (local_entries r md (kv # kvs)) k then map_of md k else None)"
        using IH mm k_notin by (auto simp: le map_of_map_insert contains_def split: option.splits)
    qed
  next
    case False
    have rec: "copy_local_keys r md kvs (s0, m0) = Inr (s, m)"
      using Cons.prems(1) mm False by simp
    have disj: "fst ` set kvs \<inter> fst ` set s0 = {}" using Cons.prems(3) by auto
    have d: "distinct (map fst kvs)" using Cons.prems(2) by simp
    note IH = Cons.IH [OF rec d disj]
    have le: "local_entries r md (kv # kvs) = local_entries r md kvs"
      using mm False by (simp add: local_entries_def)
    show ?thesis using IH le by simp
  qed
qed

lemma contains_local_entries_Some:
  "contains (local_entries r md kvs) k \<Longrightarrow> map_of md k \<noteq> None"
  by (auto simp: contains_def local_entries_def split: option.splits)

lemma lock_only_txn_result:
  assumes ok: "lock_only_txn config t = Inr lo"
    and dr: "distinct (map fst (read_set t))" and dw: "distinct (map fst (write_set t))"
  shows "internal_id lo = internal_id t \<and> internal_type lo = LOCK_ONLY
    \<and> (REMASTER_PROTOCOL_COUNTERLESS config \<and> remaster_new_master t = Some (local_replica config)
        \<longrightarrow> lo = t\<lparr>is_new_master_lock_only := True, internal_type := LOCK_ONLY\<rparr>)
    \<and> (\<not> (REMASTER_PROTOCOL_COUNTERLESS config \<and> remaster_new_master t = Some (local_replica config))
        \<longrightarrow> read_set lo = local_entries (local_replica config) (internal_master_metadata t) (read_set t)
           \<and> write_set lo = local_entries (local_replica config) (internal_master_metadata t) (write_set t)
           \<and> (\<forall>k. map_of (internal_master_metadata lo) k =
                 (if contains (read_set lo) k \<or> contains (write_set lo) k
                  then map_of (internal_master_metadata t) k else None)))"
proof -
  let ?r = "local_replica config" and ?md = "internal_master_metadata t"
  obtain rs md1 where c1: "copy_local_keys ?r ?md (read_set t) ([], []) = Inr (rs, md1)"
    using ok by (auto simp: lock_only_txn_def Let_def split: sum.splits)
  obtain ws md2 where c2: "copy_local_keys ?r ?md (write_set t) ([], md1) = Inr (ws, md2)"
    using ok c1 by (auto simp: lock_only_txn_def Let_def split: sum.splits)
  have r1: "rs = local_entries ?r ?md (read_set t)"
    and m1: "\<And>k. map_of md1 k = (if contains (local_entries ?r ?md (read_set t)) k then map_of ?md k else None)"
    using copy_local_keys_result [OF c1 dr] by simp_all
  have r2: "ws = local_entries ?r ?md (write_set t)"
    and m2: "\<And>k. map_of md2 k = (case map_of md1 k of Some w \<Rightarrow> Some w
            | None \<Rightarrow> if contains (local_entries ?r ?md (write_set t)) k then map_of ?md k else None)"
    using copy_local_keys_result [OF c2 dw] by simp_all
  have m: "\<And>k. map_of md2 k = (if contains rs k \<or> contains ws k then map_of ?md k else None)"
    using contains_local_entries_Some [of ?r ?md "read_set t"]
    by (auto simp: m1 m2 r1 r2 split: option.splits)
  let ?lo0 = "new_Transaction\<lparr>read_set := rs, write_set := ws,
                                internal_master_metadata := md2\<rparr>"
  have plain: ?thesis
    if "lo = ?lo0\<lparr>internal_id := internal_id t, internal_type := LOCK_ONLY\<rparr>
        \<or> (\<exists>nm. lo = ?lo0\<lparr>remaster_new_master := Some nm,
                            internal_id := internal_id t, internal_type := LOCK_ONLY\<rparr>)"
      and "\<not> (REMASTER_PROTOCOL_COUNTERLESS config \<and> remaster_new_master t = Some ?r)"
  proof -
    have "read_set lo = rs \<and> write_set lo = ws \<and> internal_master_metadata lo = md2
        \<and> internal_id lo = internal_id t \<and> internal_type lo = LOCK_ONLY"
      using that(1) by auto
    then show ?thesis using that(2) r1 r2 m by auto
  qed
  show ?thesis
  proof (cases "REMASTER_PROTOCOL_COUNTERLESS config")
    case False
    then have "lo = ?lo0\<lparr>internal_id := internal_id t, internal_type := LOCK_ONLY\<rparr>"
      using ok c1 c2 by (simp add: lock_only_txn_def Let_def)
    then show ?thesis using False by (intro plain) simp_all
  next
    case True
    show ?thesis
    proof (cases "remaster_new_master t")
      case None
      then have "lo = ?lo0\<lparr>internal_id := internal_id t, internal_type := LOCK_ONLY\<rparr>"
        using ok c1 c2 True by (simp add: lock_only_txn_def Let_def)
      then show ?thesis using None by (intro plain) simp_all
    next
      case (Some nm)
      show ?thesis
      proof (cases "nm = ?r")
        case eq: True
        then have "lo = t\<lparr>is_new_master_lock_only := True, internal_id := internal_id t,
                           internal_type := LOCK_ONLY\<rparr>"
          using ok c1 c2 True Some by (simp add: lock_only_txn_def Let_def)
        then show ?thesis using True Some eq by simp
      next
        case neq: False
        then have "lo = ?lo0\<lparr>remaster_new_master := Some nm,
                            internal_id := internal_id t, internal_type := LOCK_ONLY\<rparr>"
          using ok c1 c2 True Some by (simp add: lock_only_txn_def Let_def)
        then show ?thesis using Some neq by (intro plain) auto
      qed
    qed
  qed
qed

text \<open>
  C8 as stated fails in a build with \<open>REMASTER_PROTOCOL_COUNTERLESS\<close>: for a remaster
  transaction whose new master is the local region the lock-only transaction is a copy of the
  whole parent, so its write set holds the key \<open>A\<close>, whose master is region 0 and not the
  local region 1.
\<close>

theorem C8_counterexample:
  "lock_only_txn remaster_example_config remaster_example_txn
     = Inr (remaster_example_txn\<lparr>is_new_master_lock_only := True, internal_type := LOCK_ONLY\<rparr>)
   \<and> write_set (remaster_example_txn\<lparr>is_new_master_lock_only := True, internal_type := LOCK_ONLY\<rparr>)
       \<noteq> local_entries (local_replica remaster_example_config)
            (internal_master_metadata remaster_example_txn) (write_set remaster_example_txn)"
  by (simp add: lock_only_txn_def remaster_example_config_def remaster_example_txn_def
      new_Transaction_def local_entries_def map_insert_def contains_def)


lemma put_lock_only_txns_result:
  assumes "put_lock_only_txns config ts seq = Inr seq'"
  shows "\<exists>los. map (lock_only_txn config) ts = map Inr los
     \<and> seq' = seq\<lparr>batch := (batch seq)\<lparr>transactions := transactions (batch seq)
           @ filter (\<lambda>lo. read_set lo \<noteq> [] \<or> write_set lo \<noteq> []) los\<rparr>\<rparr>"
  using assms
proof (induction ts arbitrary: seq)
  case Nil
  then show ?case by simp
next
  case (Cons t ts)
  obtain lo where lo: "lock_only_txn config t = Inr lo"
    using Cons.prems by (cases "lock_only_txn config t") auto
  let ?seq1 = "if read_set lo \<noteq> [] \<or> write_set lo \<noteq> []
               then PutSingleHomeTransactionIntoBatch lo seq else seq"
  have rec: "put_lock_only_txns config ts ?seq1 = Inr seq'"
    using Cons.prems lo by simp
  from Cons.IH [OF rec] obtain los where los: "map (lock_only_txn config) ts = map Inr los"
    and seq': "seq' = ?seq1\<lparr>batch := (batch ?seq1)\<lparr>transactions := transactions (batch ?seq1)
           @ filter (\<lambda>lo. read_set lo \<noteq> [] \<or> write_set lo \<noteq> []) los\<rparr>\<rparr>"
    by blast
  have "map (lock_only_txn config) (t # ts) = map Inr (lo # los)"
    using lo los by simp
  moreover have "seq' = seq\<lparr>batch := (batch seq)\<lparr>transactions := transactions (batch seq)
           @ filter (\<lambda>lo. read_set lo \<noteq> [] \<or> write_set lo \<noteq> []) (lo # los)\<rparr>\<rparr>"
    using seq' by (simp add: PutSingleHomeTransactionIntoBatch_def)
  ultimately show ?case by blast
qed

text \<open>
  C8, amended. For a multi-home batch that \<open>ProcessMultiHomeBatch\<close> processes to the end,
  there is one lock-only transaction for each transaction of the batch, in order. It carries
  the parent's id and the type \<open>LOCK_ONLY\<close>. Unless the build defines
  \<open>REMASTER_PROTOCOL_COUNTERLESS\<close> and the parent is a remaster whose new master is the
  local region (then it is the parent itself, marked as the new master's lock-only), its read
  set and write set are exactly the parent's entries whose master is the local region, and its
  metadata are the parent's metadata of exactly these keys. The lock-only transactions with a
  non-empty read set or write set, and no others, are appended to the current single-home
  batch, and the multi-home batch is sent to the interleaver of every partition of the local
  region.
\<close>

theorem C8_ProcessMultiHomeBatch:
  assumes mh: "transaction_type b = MULTI_HOME"
    and wf: "\<forall>t \<in> set (transactions b).
               distinct (map fst (read_set t)) \<and> distinct (map fst (write_set t))"
    and ok: "ProcessMultiHomeBatch config b seq = Inr seq'"
  shows "\<exists>los.
      list_all2 (\<lambda>t lo.
          lock_only_txn config t = Inr lo
        \<and> internal_id lo = internal_id t \<and> internal_type lo = LOCK_ONLY
        \<and> (REMASTER_PROTOCOL_COUNTERLESS config
             \<and> remaster_new_master t = Some (local_replica config)
           \<longrightarrow> lo = t\<lparr>is_new_master_lock_only := True, internal_type := LOCK_ONLY\<rparr>)
        \<and> (\<not> (REMASTER_PROTOCOL_COUNTERLESS config
                \<and> remaster_new_master t = Some (local_replica config))
           \<longrightarrow> read_set lo
                 = local_entries (local_replica config) (internal_master_metadata t) (read_set t)
             \<and> write_set lo
                 = local_entries (local_replica config) (internal_master_metadata t) (write_set t)
             \<and> (\<forall>k. map_of (internal_master_metadata lo) k =
                   (if contains (read_set lo) k \<or> contains (write_set lo) k
                    then map_of (internal_master_metadata t) k else None))))
        (transactions b) los
    \<and> transactions (batch seq')
        = transactions (batch seq) @ filter (\<lambda>lo. read_set lo \<noteq> [] \<or> write_set lo \<noteq> []) los
    \<and> transaction_type (batch seq') = transaction_type (batch seq)
    \<and> sent seq' = sent seq @
        map (\<lambda>part. (b, kInterleaverChannel,
                      MakeMachineId config (local_replica config) (word_of_nat part)))
          [0 ..< unat (num_partitions config)]"
proof -
  obtain seq1 where p: "put_lock_only_txns config (transactions b) seq = Inr seq1"
    and s': "seq' = seq1\<lparr>sent := sent seq1 @
                   map (\<lambda>part. (b, kInterleaverChannel,
                                 MakeMachineId config (local_replica config) (word_of_nat part)))
                     [0 ..< unat (num_partitions config)]\<rparr>"
    using ok mh by (auto simp: ProcessMultiHomeBatch_def split: sum.splits)
  from put_lock_only_txns_result [OF p] obtain los
    where los: "map (lock_only_txn config) (transactions b) = map Inr los"
      and seq1: "seq1 = seq\<lparr>batch := (batch seq)\<lparr>transactions := transactions (batch seq)
           @ filter (\<lambda>lo. read_set lo \<noteq> [] \<or> write_set lo \<noteq> []) los\<rparr>\<rparr>"
    by blast
  have len: "length (transactions b) = length los"
    using los by (metis length_map)
  have each: "lock_only_txn config (transactions b ! i) = Inr (los ! i)" if "i < length los" for i
  proof -
    have "map (lock_only_txn config) (transactions b) ! i = map Inr los ! i" using los by simp
    then show ?thesis using that len by simp
  qed
  have "list_all2 (\<lambda>t lo.
          lock_only_txn config t = Inr lo
        \<and> internal_id lo = internal_id t \<and> internal_type lo = LOCK_ONLY
        \<and> (REMASTER_PROTOCOL_COUNTERLESS config
             \<and> remaster_new_master t = Some (local_replica config)
           \<longrightarrow> lo = t\<lparr>is_new_master_lock_only := True, internal_type := LOCK_ONLY\<rparr>)
        \<and> (\<not> (REMASTER_PROTOCOL_COUNTERLESS config
                \<and> remaster_new_master t = Some (local_replica config))
           \<longrightarrow> read_set lo
                 = local_entries (local_replica config) (internal_master_metadata t) (read_set t)
             \<and> write_set lo
                 = local_entries (local_replica config) (internal_master_metadata t) (write_set t)
             \<and> (\<forall>k. map_of (internal_master_metadata lo) k =
                   (if contains (read_set lo) k \<or> contains (write_set lo) k
                    then map_of (internal_master_metadata t) k else None))))
        (transactions b) los"
  proof (rule list_all2_all_nthI [OF len])
    fix i assume i: "i < length (transactions b)"
    then have t: "transactions b ! i \<in> set (transactions b)" by simp
    have e: "lock_only_txn config (transactions b ! i) = Inr (los ! i)"
      using each i len by simp
    have d: "distinct (map fst (read_set (transactions b ! i)))"
      "distinct (map fst (write_set (transactions b ! i)))"
      using wf t by blast+
    show "lock_only_txn config (transactions b ! i) = Inr (los ! i)
        \<and> internal_id (los ! i) = internal_id (transactions b ! i) \<and> internal_type (los ! i) = LOCK_ONLY
        \<and> (REMASTER_PROTOCOL_COUNTERLESS config
             \<and> remaster_new_master (transactions b ! i) = Some (local_replica config)
           \<longrightarrow> los ! i = (transactions b ! i)\<lparr>is_new_master_lock_only := True, internal_type := LOCK_ONLY\<rparr>)
        \<and> (\<not> (REMASTER_PROTOCOL_COUNTERLESS config
                \<and> remaster_new_master (transactions b ! i) = Some (local_replica config))
           \<longrightarrow> read_set (los ! i)
                 = local_entries (local_replica config) (internal_master_metadata (transactions b ! i)) (read_set (transactions b ! i))
             \<and> write_set (los ! i)
                 = local_entries (local_replica config) (internal_master_metadata (transactions b ! i)) (write_set (transactions b ! i))
             \<and> (\<forall>k. map_of (internal_master_metadata (los ! i)) k =
                   (if contains (read_set (los ! i)) k \<or> contains (write_set (los ! i)) k
                    then map_of (internal_master_metadata (transactions b ! i)) k else None)))"
      using e lock_only_txn_result [OF e d] by blast
  qed
  then show ?thesis using s' seq1 by (intro exI [of _ los]) simp
qed

theorem C8_ProcessMultiHomeBatch_witness:
  "\<exists>los.
      list_all2 (\<lambda>t lo.
          lock_only_txn mh_example_config t = Inr lo
        \<and> internal_id lo = internal_id t \<and> internal_type lo = LOCK_ONLY
        \<and> (REMASTER_PROTOCOL_COUNTERLESS mh_example_config
             \<and> remaster_new_master t = Some (local_replica mh_example_config)
           \<longrightarrow> lo = t\<lparr>is_new_master_lock_only := True, internal_type := LOCK_ONLY\<rparr>)
        \<and> (\<not> (REMASTER_PROTOCOL_COUNTERLESS mh_example_config
                \<and> remaster_new_master t = Some (local_replica mh_example_config))
           \<longrightarrow> read_set lo
                 = local_entries (local_replica mh_example_config) (internal_master_metadata t) (read_set t)
             \<and> write_set lo
                 = local_entries (local_replica mh_example_config) (internal_master_metadata t) (write_set t)
             \<and> (\<forall>k. map_of (internal_master_metadata lo) k =
                   (if contains (read_set lo) k \<or> contains (write_set lo) k
                    then map_of (internal_master_metadata t) k else None))))
        (transactions mh_example_batch) los
    \<and> transactions (batch mh_example_result)
        = transactions (batch mh_example_sequencer)
          @ filter (\<lambda>lo. read_set lo \<noteq> [] \<or> write_set lo \<noteq> []) los
    \<and> transaction_type (batch mh_example_result) = transaction_type (batch mh_example_sequencer)
    \<and> sent mh_example_result = sent mh_example_sequencer @
        map (\<lambda>part. (mh_example_batch, kInterleaverChannel,
                      MakeMachineId mh_example_config (local_replica mh_example_config)
                        (word_of_nat part)))
          [0 ..< unat (num_partitions mh_example_config)]"
proof -
  have h1: "transaction_type mh_example_batch = MULTI_HOME"
    by (simp add: mh_example_batch_def)
  have h2: "\<forall>t \<in> set (transactions mh_example_batch).
               distinct (map fst (read_set t)) \<and> distinct (map fst (write_set t))"
    by (simp add: mh_example_batch_def mh_example_txn_def new_Transaction_def)
  have u: "[0 ..< (2::nat)] = [0, 1]"
    by (simp add: numeral_2_eq_2)
  have h3: "ProcessMultiHomeBatch mh_example_config mh_example_batch mh_example_sequencer
              = Inr mh_example_result"
    by (simp add: ProcessMultiHomeBatch_def mh_example_batch_def mh_example_config_def
        mh_example_sequencer_def mh_example_result_def mh_example_txn_def mh_example_lock_only_def
        lock_only_txn_def new_Transaction_def map_insert_def contains_def
        PutSingleHomeTransactionIntoBatch_def u)
  show ?thesis by (rule C8_ProcessMultiHomeBatch [OF h1 h2 h3])
qed

section \<open>The remaster manager\<close>








lemma check_counters_no_metadata:
  assumes "map_of md (fst k) = None"
  shows "check_counters st md (k # zs) = Inl KeyNotFound"
  using assms by simp




lemma VerifyMaster_without_keys_or_metadata:
  assumes "all_txns i = Some h"
    and "keys_in_partition h = [] \<or> internal_master_metadata (txn h) = []"
  shows "VerifyMaster st all_txns i bq = Inr (VALID, bq)"
  using assms by (auto simp: VerifyMaster_def Let_def)















end
